theory Spec2Isabelle
  imports Main "HOL-Library.Sublist"
begin

section \<open>Strings\<close>

text \<open>
  A Python \<open>str\<close> is a sequence of Unicode code points, and \<open>len\<close> counts code points.
  The block character U+2588 does not fit an 8-bit \<^typ>\<open>char\<close>, so a Python string is a
  list of code points, each the integer \<open>ord\<close> gives; \<open>ustr\<close> reads an ASCII literal.
\<close>

type_synonym ustr = "int list"

definition ustr :: "string \<Rightarrow> ustr" where
  "ustr s = map of_char s"

definition block :: int where
  "block = 9608"

text \<open>A run of \<open>n\<close> block characters, \<^verbatim>\<open>"\u2588" * n\<close>.\<close>

definition blocks :: "nat \<Rightarrow> ustr" where
  "blocks n = replicate n block"

text \<open>
  \<^verbatim>\<open>text.replace(old, new)\<close>: the occurrences of \<open>old\<close> are found from the left and do
  not overlap. With an empty \<open>old\<close> Python puts \<open>new\<close> before every character and at
  the end.
\<close>

function str_replace :: "'a list \<Rightarrow> 'a list \<Rightarrow> 'a list \<Rightarrow> 'a list" where
  "str_replace old new [] = (if old = [] then new else [])"
| "str_replace old new (c # cs) =
     (if old = [] then new @ c # str_replace old new cs
      else if prefix old (c # cs) then new @ str_replace old new (drop (length old) (c # cs))
      else c # str_replace old new cs)"
  by pat_completeness auto
termination
  by (relation "measure (\<lambda>(old, new, t). length t)") auto

section \<open>Regular expressions as \<open>re\<close> runs them\<close>

text \<open>
  The two patterns of \<open>agent/demo.py\<close> use character ranges, character sets, literals,
  \<^verbatim>\<open>\b\<close>, sequence, alternation, \<^verbatim>\<open>?\<close>, \<^verbatim>\<open>+\<close> and \<^verbatim>\<open>*\<close> (all greedy).
\<close>

datatype rx = Rng int int | OneOf "int list" | Lit "int list" | WordB
  | Seq rx rx | Alt rx rx | Opt rx | Star rx

text \<open>
  \<^verbatim>\<open>\w\<close> of a \<open>str\<close> pattern: alphanumeric or underscore. On ASCII that is
  \<^verbatim>\<open>[0-9A-Za-z_]\<close>; for the other code points it is a table of the Unicode database,
  which is no part of the repository and is taken as the parameter \<open>uni\<close>.
\<close>

definition is_word :: "(int \<Rightarrow> bool) \<Rightarrow> int \<Rightarrow> bool" where
  "is_word uni c = (if c < 128
     then (48 \<le> c \<and> c \<le> 57) \<or> (65 \<le> c \<and> c \<le> 90) \<or> c = 95 \<or> (97 \<le> c \<and> c \<le> 122)
     else uni c)"

text \<open>\<^verbatim>\<open>\b\<close> at position \<open>p\<close>: exactly one of the characters before and at \<open>p\<close> is a word
  character, the ends of the string counting as non-word.\<close>

definition at_boundary :: "(int \<Rightarrow> bool) \<Rightarrow> ustr \<Rightarrow> nat \<Rightarrow> bool" where
  "at_boundary uni t p =
     ((0 < p \<and> p \<le> length t \<and> is_word uni (t ! (p - 1))) \<noteq> (p < length t \<and> is_word uni (t ! p)))"

text \<open>
  \<open>rx_ends uni t r p\<close> lists the positions at which a match of \<open>r\<close> that starts at \<open>p\<close>
  can end, in the order in which the backtracking matcher tries them: the first
  alternative before the second, one more repetition before stopping. An iteration of
  \<^verbatim>\<open>*\<close> that consumes nothing is not repeated.
\<close>

function rx_ends :: "(int \<Rightarrow> bool) \<Rightarrow> ustr \<Rightarrow> rx \<Rightarrow> nat \<Rightarrow> nat list" where
  "rx_ends uni t (Rng lo hi) p =
     (if p < length t \<and> lo \<le> t ! p \<and> t ! p \<le> hi then [Suc p] else [])"
| "rx_ends uni t (OneOf cs) p = (if p < length t \<and> t ! p \<in> set cs then [Suc p] else [])"
| "rx_ends uni t (Lit s) p = (if take (length s) (drop p t) = s then [p + length s] else [])"
| "rx_ends uni t WordB p = (if at_boundary uni t p then [p] else [])"
| "rx_ends uni t (Seq a b) p = concat (map (rx_ends uni t b) (rx_ends uni t a p))"
| "rx_ends uni t (Alt a b) p = rx_ends uni t a p @ rx_ends uni t b p"
| "rx_ends uni t (Opt a) p = rx_ends uni t a p @ [p]"
| "rx_ends uni t (Star a) p =
     concat (map (\<lambda>e. if p < e \<and> e \<le> length t then rx_ends uni t (Star a) e else [])
                 (rx_ends uni t a p)) @ [p]"
  by pat_completeness auto
termination
  by (relation "measures [\<lambda>(uni, t, r, p). size r, \<lambda>(uni, t, r, p). length t - p]") auto

declare rx_ends.simps(8) [simp del]

definition Plus :: "rx \<Rightarrow> rx" where
  "Plus a = Seq a (Star a)"

fun alts :: "rx list \<Rightarrow> rx" where
  "alts [] = OneOf []"
| "alts [r] = r"
| "alts (r # rs) = Alt r (alts rs)"

text \<open>The match that \<open>pattern.match(t, p)\<close> returns: the first end the matcher reaches.\<close>

definition rx_match :: "(int \<Rightarrow> bool) \<Rightarrow> rx \<Rightarrow> ustr \<Rightarrow> nat \<Rightarrow> nat option" where
  "rx_match uni r t p = (case rx_ends uni t r p of [] \<Rightarrow> None | e # es \<Rightarrow> Some e)"

text \<open>\<^verbatim>\<open>t[s:e]\<close> for \<open>s \<le> e\<close>.\<close>

definition slice :: "'a list \<Rightarrow> nat \<Rightarrow> nat \<Rightarrow> 'a list" where
  "slice t s e = take (e - s) (drop s t)"

text \<open>
  \<open>pattern.sub(f, t)\<close>, scanning from position \<open>p\<close>: the leftmost match is replaced by
  \<open>f\<close> of the matched text and the scan goes on behind it, on the original string; where
  nothing matches the character is copied. An empty match is replaced and the next
  character copied.
\<close>

function re_sub_from :: "(int \<Rightarrow> bool) \<Rightarrow> rx \<Rightarrow> (ustr \<Rightarrow> ustr) \<Rightarrow> ustr \<Rightarrow> nat \<Rightarrow> ustr" where
  "re_sub_from uni r f t p =
     (if length t < p then []
      else case rx_match uni r t p of
        Some e \<Rightarrow>
          if p < e \<and> e \<le> length t then f (slice t p e) @ re_sub_from uni r f t e
          else f [] @ (if p < length t then t ! p # re_sub_from uni r f t (Suc p) else [])
      | None \<Rightarrow> if p < length t then t ! p # re_sub_from uni r f t (Suc p) else [])"
  by pat_completeness auto
termination
  by (relation "measure (\<lambda>(uni, r, f, t, p). Suc (length t) - p)") auto

declare re_sub_from.simps [simp del]

definition re_sub :: "(int \<Rightarrow> bool) \<Rightarrow> rx \<Rightarrow> (ustr \<Rightarrow> ustr) \<Rightarrow> ustr \<Rightarrow> ustr" where
  "re_sub uni r f t = re_sub_from uni r f t 0"

text \<open>The spans \<open>(m.start(), m.end())\<close> of \<open>pattern.finditer(t)\<close> from position \<open>p\<close> on.\<close>

function re_spans_from :: "(int \<Rightarrow> bool) \<Rightarrow> rx \<Rightarrow> ustr \<Rightarrow> nat \<Rightarrow> (nat \<times> nat) list" where
  "re_spans_from uni r t p =
     (if length t < p then []
      else case rx_match uni r t p of
        Some e \<Rightarrow>
          if p < e \<and> e \<le> length t then (p, e) # re_spans_from uni r t e
          else (p, p) # (if p < length t then re_spans_from uni r t (Suc p) else [])
      | None \<Rightarrow> if p < length t then re_spans_from uni r t (Suc p) else [])"
  by pat_completeness auto
termination
  by (relation "measure (\<lambda>(uni, r, t, p). Suc (length t) - p)") auto

declare re_spans_from.simps [simp del]

section \<open>\<open>agent/demo.py\<close>\<close>

subsection \<open>Entity detection patterns\<close>

text \<open>\<^verbatim>\<open>[A-Z][a-z]+\<close> and \<^verbatim>\<open>[ \t]+\<close>\<close>

definition cap_word :: rx where
  "cap_word = Seq (Rng 65 90) (Plus (Rng 97 122))"

definition blanks :: rx where
  "blanks = Plus (OneOf [32, 9])"

text \<open>\<^verbatim>\<open>\b([A-Z][a-z]+(?:[ \t]+[A-Z][a-z]+)+)\b\<close>\<close>

definition RE_MULTI_CAP :: rx where
  "RE_MULTI_CAP = Seq WordB (Seq (Seq cap_word (Plus (Seq blanks cap_word))) WordB)"

definition TITLES :: "ustr list" where
  "TITLES = map ustr [''Dr'', ''Mr'', ''Mrs'', ''Ms'', ''Prof'', ''Rev'', ''Sen'', ''Rep'', ''Gov'',
     ''Mayor'', ''Judge'', ''Chief'', ''Officer'', ''Det'', ''Sgt'', ''Lt'', ''Cpt'', ''Cmdr'', ''Supt'']"

text \<open>\<^verbatim>\<open>\b((?:Dr|Mr|...|Supt)\.?[ \t]+[A-Z][a-z]+(?:[ \t]+[A-Z][a-z]+)*)\b\<close>\<close>

definition RE_TITLED :: rx where
  "RE_TITLED = Seq WordB (Seq
     (Seq (alts (map Lit TITLES)) (Seq (Opt (OneOf [46])) (Seq blanks
       (Seq cap_word (Star (Seq blanks cap_word))))))
     WordB)"

definition ENTITY_WHITELIST :: "ustr list" where
  "ENTITY_WHITELIST = map ustr [
     ''January'', ''February'', ''March'', ''April'', ''May'', ''June'',
     ''July'', ''August'', ''September'', ''October'', ''November'', ''December'',
     ''Monday'', ''Tuesday'', ''Wednesday'', ''Thursday'', ''Friday'', ''Saturday'', ''Sunday'',
     ''Python'', ''Java'', ''JavaScript'', ''TypeScript'', ''Visual Studio'',
     ''Open Source'', ''Machine Learning'', ''Deep Learning'',
     ''Natural Language'', ''Large Language'', ''Artificial Intelligence'',
     ''Stack Overflow'', ''Pull Request'', ''Code Review'',
     ''Unit Test'', ''Test Case'', ''Test Suite'',
     ''Step'', ''Provider'', ''Model'', ''Reasoning'', ''Workspace'', ''Session'',
     ''Token'', ''Tokens'', ''Type'', ''Commands'',
     ''Open Planter'', ''Rich Text'']"

definition GENERIC_PATH_PARTS :: "ustr list" where
  "GENERIC_PATH_PARTS = map ustr [
     ''/'', ''Users'', ''home'', ''Documents'', ''Desktop'', ''Downloads'',
     ''Projects'', ''repos'', ''src'', ''var'', ''tmp'', ''opt'', ''etc'',
     ''Library'', ''Applications'', ''volumes'', ''mnt'', ''media'',
     ''nix'', ''store'', ''run'', ''snap'']"

subsection \<open>DemoCensor\<close>

text \<open>A \<open>pathlib.Path\<close> as the constructor reads it: its \<open>parts\<close> and its \<open>name\<close>.\<close>

record path =
  parts :: "ustr list"
  name :: ustr

record DemoCensor =
  replacements :: "(ustr \<times> ustr) list"

text \<open>The loop of \<open>_build_path_replacements\<close>, with its three \<open>continue\<close>s.\<close>

fun add_parts :: "ustr \<Rightarrow> ustr list \<Rightarrow> (ustr \<times> ustr) list \<Rightarrow> (ustr \<times> ustr) list" where
  "add_parts project_name [] reps = reps"
| "add_parts project_name (part # rest) reps =
     (if part \<in> set GENERIC_PATH_PARTS then add_parts project_name rest reps
      else if part = project_name then add_parts project_name rest reps
      else if part = [] then add_parts project_name rest reps
      else add_parts project_name rest (reps @ [(part, blocks (length part))]))"

text \<open>\<open>list.sort(key=lambda t: len(t[0]), reverse=True)\<close> is stable: entries of equal
  length keep their order.\<close>

definition build_path_replacements :: "path \<Rightarrow> (ustr \<times> ustr) list \<Rightarrow> (ustr \<times> ustr) list" where
  "build_path_replacements workspace reps =
     sort_key (\<lambda>t. - int (length (fst t))) (add_parts (name workspace) (parts workspace) reps)"

definition DemoCensor_init :: "path \<Rightarrow> DemoCensor" where
  "DemoCensor_init workspace = \<lparr>replacements = build_path_replacements workspace []\<rparr>"

text \<open>\<open>_replace_entity\<close>, applied to \<open>m.group(0)\<close>.\<close>

definition replace_entity :: "ustr \<Rightarrow> ustr" where
  "replace_entity matched =
     (if matched \<in> set ENTITY_WHITELIST then matched
      else if list_ex (\<lambda>term. sublist term matched) ENTITY_WHITELIST then matched
      else blocks (length matched))"

text \<open>The three stages of \<open>censor_text\<close>.\<close>

definition replace_paths :: "(ustr \<times> ustr) list \<Rightarrow> ustr \<Rightarrow> ustr" where
  "replace_paths reps text = fold (\<lambda>(original, replacement) t. str_replace original replacement t) reps text"

definition sub_titled :: "(int \<Rightarrow> bool) \<Rightarrow> ustr \<Rightarrow> ustr" where
  "sub_titled uni text = re_sub uni RE_TITLED replace_entity text"

definition sub_multi_cap :: "(int \<Rightarrow> bool) \<Rightarrow> ustr \<Rightarrow> ustr" where
  "sub_multi_cap uni text = re_sub uni RE_MULTI_CAP replace_entity text"

text \<open>
  \<open>censor_text\<close> is a method: it takes the censor object and returns the result together
  with the object as the call leaves it. The object may carry more than the table (the
  record is extensible).
\<close>

definition censor_text ::
  "(int \<Rightarrow> bool) \<Rightarrow> 'a DemoCensor_scheme \<Rightarrow> ustr \<Rightarrow> ustr \<times> 'a DemoCensor_scheme" where
  "censor_text uni self text =
     (let text1 = replace_paths (replacements self) text;
          text2 = sub_titled uni text1;
          text3 = sub_multi_cap uni text2
      in (text3, self))"

subsection \<open>Concrete inputs\<close>

text \<open>
  The \<^verbatim>\<open>\w\<close> table that classes no code point above 127 as a word character. It is
  exact on every run over ASCII text and blocks: U+2588 is a symbol, not alphanumeric.
\<close>

definition no_uni :: "int \<Rightarrow> bool" where
  "no_uni c = False"

text \<open>\<^verbatim>\<open>Path("/tmp/Proj")\<close>, the workspace of the tests of \<open>tests/test_demo.py\<close>.\<close>

definition tmp_proj :: path where
  "tmp_proj = \<lparr>parts = [ustr ''/'', ustr ''tmp'', ustr ''Proj''], name = ustr ''Proj''\<rparr>"

text \<open>\<^verbatim>\<open>Path("/home/bob/Proj")\<close>: the segment \<open>bob\<close> is censored.\<close>

definition home_bob :: path where
  "home_bob = \<lparr>parts = [ustr ''/'', ustr ''home'', ustr ''bob'', ustr ''Proj''], name = ustr ''Proj''\<rparr>"

section \<open>The model client\<close>

text \<open>
  The client is \<open>agent/model.py\<close>. Of it only the tests, \<open>tests/test_model.py\<close>, are at
  hand, so its definitions follow the specification; each says which part it stands for.
\<close>

text \<open>
  Modelled from the spec: the role of a message (section 3, Message).
  \<open>agent/model.py\<close> is not among the sources.
\<close>

datatype role = System | User | Assistant | Tool

text \<open>
  Modelled from the spec: a Message of \<open>agent/model.py\<close> (section 3): role,
  content, optional tool-call record.
\<close>

record message =
  msg_role :: role
  msg_content :: string
  msg_tool_call :: "string option"

text \<open>
  Modelled from the spec: a Conversation of \<open>agent/model.py\<close> (section 3): the
  ordered, append-only sequence of its messages.
\<close>

type_synonym conversation = "message list"

text \<open>
  Modelled from the spec: the reasoning-effort level of the RequestConfig; section 9 names the
  levels low, medium and high.
\<close>

datatype effort = Low | Medium | High

text \<open>
  Modelled from the spec: the two vendor families of the client classes of
  \<open>agent/model.py\<close> (section 4.1).
\<close>

datatype vendor = OpenAICompatible | Anthropic

text \<open>
  Modelled from the spec: the RequestConfig of \<open>agent/model.py\<close> (section 3). The
  two callbacks are not fields: their invocations are recorded in \<open>effects\<close>.
\<close>

record request_config =
  model_id :: string
  credential :: string
  base_url :: string
  provider :: string
  reasoning_effort :: effort
  thinking_mode :: "string option"
  max_retries :: nat
  first_byte_timeout :: nat
  stream_timeout :: nat

text \<open>
  Modelled from the spec: a client instance of \<open>agent/model.py\<close>: its vendor
  family and the RequestConfig that lives with it (section 3, lifecycle).
\<close>

record client =
  vendor :: vendor
  config :: request_config

text \<open>
  Modelled from the spec: the JSON bodies that the payload builders of
  \<open>agent/model.py\<close> produce; an object keeps the order of its keys.
\<close>

datatype json = JNull | JBool bool | JNum int | JStr string | JArr "json list"
  | JObj "(string \<times> json) list"

text \<open>Modelled from the spec: the kind of a DeltaEvent (section 3).\<close>

datatype delta_kind = Text | Thinking | ToolCall

text \<open>
  Modelled from the spec: a DeltaEvent (section 3), the pair handed to
  \<open>on_content_delta(kind, fragment)\<close>.
\<close>

type_synonym delta_event = "delta_kind \<times> string"

text \<open>
  Modelled from the spec: a Turn of \<open>agent/model.py\<close> (section 3): text, tool
  calls and stop/finish reason (usage is left out).
\<close>

record turn =
  turn_text :: string
  turn_tool_calls :: "(nat \<times> string) list"
  turn_stop_reason :: "string option"

text \<open>
  Modelled from the spec: the error taxonomy of \<open>agent/model.py\<close> (sections 4.3
  and 7): \<open>ModelError\<close> with its message, \<open>HTTPModelError\<close> with
  status code and raw body, \<open>RateLimitError\<close>.
\<close>

datatype error = ModelError string | HTTPModelError nat string | RateLimitError string

text \<open>
  Modelled from the spec: what the spec leaves to tables of \<open>agent/model.py\<close> that
  it does not give: which model ids form the adaptive-thinking class, the thinking budgets of
  the levels other than medium, the temperature of a request, and which stop/finish reasons
  signal throttling. They are parameters of the model.
\<close>

record tables =
  adaptive_thinking :: "string \<Rightarrow> bool"
  budget_low :: int
  budget_high :: int
  default_temperature :: int
  signals_throttling :: "string \<Rightarrow> bool"

text \<open>
  Modelled from the spec: a decimal digit of a JSON number, for the serialised body of
  \<open>agent/model.py\<close>.
\<close>

fun digit_char :: "nat \<Rightarrow> char" where
  "digit_char n = char_of (48 + n)"

text \<open>
  Modelled from the spec: the decimal digits of a JSON number in the serialised body.
\<close>

function show_nat :: "nat \<Rightarrow> string" where
  "show_nat n = (if n < 10 then [digit_char n] else show_nat (n div 10) @ [digit_char (n mod 10)])"
  by pat_completeness auto
termination
  by (relation "measure id") auto

declare show_nat.simps [simp del]

text \<open>Modelled from the spec: a JSON number in the serialised body.\<close>

definition show_int :: "int \<Rightarrow> string" where
  "show_int i = (if i < 0 then CHR ''-'' # show_nat (nat (- i)) else show_nat (nat i))"

text \<open>
  Modelled from the spec: the escaping of quote and backslash in a JSON string of the
  serialised body.
\<close>

fun escape :: "string \<Rightarrow> string" where
  "escape [] = []"
| "escape (c # cs) =
     (if c = CHR 0x22 \<or> c = CHR 0x5C then CHR 0x5C # c # escape cs else c # escape cs)"

text \<open>Modelled from the spec: a JSON string in the serialised body.\<close>

definition quoted :: "string \<Rightarrow> string" where
  "quoted s = CHR 0x22 # escape s @ [CHR 0x22]"

text \<open>
  Modelled from the spec: the separator between the items of a JSON array or object in the
  serialised body.
\<close>

fun commas :: "string list \<Rightarrow> string" where
  "commas [] = []"
| "commas [s] = s"
| "commas (s # ss) = s @ '', '' @ commas ss"

text \<open>
  Modelled from the spec: the bytes of a request body, as the serialiser of
  \<open>agent/model.py\<close> would write them (section 6: request bodies are JSON).
\<close>

fun encode :: "json \<Rightarrow> string" where
  "encode JNull = ''null''"
| "encode (JBool b) = (if b then ''true'' else ''false'')"
| "encode (JNum i) = show_int i"
| "encode (JStr s) = quoted s"
| "encode (JArr xs) = ''['' @ commas (map encode xs) @ '']''"
| "encode (JObj kvs) = ''{'' @ commas (map (\<lambda>kv. quoted (fst kv) @ '': '' @ encode (snd kv)) kvs) @ ''}''"

text \<open>
  Modelled from the spec: the wire name of a role in the message array (section 4.1).
\<close>

definition role_name :: "role \<Rightarrow> string" where
  "role_name r = (case r of System \<Rightarrow> ''system'' | User \<Rightarrow> ''user''
     | Assistant \<Rightarrow> ''assistant'' | Tool \<Rightarrow> ''tool'')"

text \<open>
  Modelled from the spec: the wire name of a reasoning-effort level (sections 4.1 and 8).
\<close>

definition effort_name :: "effort \<Rightarrow> string" where
  "effort_name e = (case e of Low \<Rightarrow> ''low'' | Medium \<Rightarrow> ''medium'' | High \<Rightarrow> ''high'')"

text \<open>
  Modelled from the spec: one entry of the role/content message array (section 4.1).
\<close>

definition message_json :: "message \<Rightarrow> json" where
  "message_json m = JObj ([(''role'', JStr (role_name (msg_role m))), (''content'', JStr (msg_content m))]
     @ (case msg_tool_call m of None \<Rightarrow> [] | Some tc \<Rightarrow> [(''tool_call'', JStr tc)]))"

text \<open>
  Modelled from the spec: the OpenAI-compatible payload builder of
  \<open>agent/model.py\<close> (section 4.1): role/content message array, a
  \<open>reasoning_effort\<close> field, and \<^verbatim>\<open>{"thinking": {"type":
  mode}}\<close> when a thinking mode is configured.
\<close>

definition build_openai :: "conversation \<Rightarrow> request_config \<Rightarrow> json" where
  "build_openai conv cfg = JObj (
     [(''model'', JStr (model_id cfg)),
      (''messages'', JArr (map message_json conv)),
      (''reasoning_effort'', JStr (effort_name (reasoning_effort cfg)))]
     @ (case thinking_mode cfg of None \<Rightarrow> []
        | Some mode \<Rightarrow> [(''thinking'', JObj [(''type'', JStr mode)])]))"

text \<open>
  Modelled from the spec: the thinking budget derived from the reasoning-effort level (section
  4.1); the spec fixes medium at 4096 and leaves the other two levels open (section 9).
\<close>

definition budget_tokens :: "tables \<Rightarrow> effort \<Rightarrow> int" where
  "budget_tokens T e = (case e of Low \<Rightarrow> budget_low T | Medium \<Rightarrow> 4096 | High \<Rightarrow> budget_high T)"

text \<open>
  Modelled from the spec: the Anthropic payload builder of \<open>agent/model.py\<close>
  (section 4.1): the system message apart from the turn array; adaptive thinking with
  \<open>output_config\<close> and no temperature for the adaptive-thinking class, manual
  thinking with a token budget otherwise.
\<close>

definition build_anthropic :: "tables \<Rightarrow> conversation \<Rightarrow> request_config \<Rightarrow> json" where
  "build_anthropic T conv cfg = JObj (
     [(''model'', JStr (model_id cfg)),
      (''system'', JStr (concat (map msg_content (filter (\<lambda>m. msg_role m = System) conv)))),
      (''messages'', JArr (map message_json (filter (\<lambda>m. msg_role m \<noteq> System) conv)))]
     @ (if adaptive_thinking T (model_id cfg)
        then [(''thinking'', JObj [(''type'', JStr ''adaptive'')]),
              (''output_config'', JObj [(''effort'', JStr (effort_name (reasoning_effort cfg)))])]
        else [(''temperature'', JNum (default_temperature T)),
              (''thinking'', JObj [(''type'', JStr ''enabled''),
                 (''budget_tokens'', JNum (budget_tokens T (reasoning_effort cfg)))])]))"

text \<open>
  Modelled from the spec: the Payload Builder as a method of the client (section 4.1): it
  returns the body together with the client as the call leaves it.
\<close>

definition build_payload ::
  "tables \<Rightarrow> 'a client_scheme \<Rightarrow> conversation \<Rightarrow> json \<times> 'a client_scheme" where
  "build_payload T self conv =
     ((case vendor self of
         OpenAICompatible \<Rightarrow> build_openai conv (config self)
       | Anthropic \<Rightarrow> build_anthropic T conv (config self)), self)"

text \<open>
  Modelled from the spec: the value of a key of a JSON object, as the tests of
  \<open>tests/test_model.py\<close> read the captured payload.
\<close>

fun field :: "string \<Rightarrow> json \<Rightarrow> json option" where
  "field k (JObj kvs) = map_of kvs k"
| "field k j = None"

text \<open>
  Modelled from the spec: the payload rebuilt without one field (section 4.4,
  unsupported-parameter degradation).
\<close>

fun without_field :: "string \<Rightarrow> json \<Rightarrow> json" where
  "without_field k (JObj kvs) = JObj (filter (\<lambda>kv. fst kv \<noteq> k) kvs)"
| "without_field k j = j"

text \<open>
  Modelled from the spec: the field a vendor may reject (section 4.4):
  \<open>reasoning_effort\<close> for OpenAI-compatible vendors, \<open>thinking\<close> for
  Anthropic.
\<close>

definition rejected_field :: "vendor \<Rightarrow> string" where
  "rejected_field v = (case v of OpenAICompatible \<Rightarrow> ''reasoning_effort'' | Anthropic \<Rightarrow> ''thinking'')"

text \<open>
  Modelled from the spec: the body of an HTTPModelError names a field when the field name
  occurs in it (section 4.4: matching is string inspection).
\<close>

definition names_field :: "string \<Rightarrow> string \<Rightarrow> bool" where
  "names_field f body = sublist f body"

text \<open>
  Modelled from the spec: the fixed completions path (section 6); the two paths are those of
  the URLs in \<open>tests/test_model.py\<close>.
\<close>

definition completions_path :: "vendor \<Rightarrow> string" where
  "completions_path v = (case v of OpenAICompatible \<Rightarrow> ''/chat/completions'' | Anthropic \<Rightarrow> ''/messages'')"

text \<open>
  Modelled from the spec: the URL of a request: \<open>base_url\<close> followed by the fixed
  completions path (section 6).
\<close>

definition request_url :: "'a client_scheme \<Rightarrow> string" where
  "request_url self = base_url (config self) @ completions_path (vendor self)"

text \<open>
  Modelled from the spec: the known deprecated path segment (section 4.4):
  \<^verbatim>\<open>/api/paas/v4/\<close> in the request URL, for provider
  \<open>zai\<close>.
\<close>

definition deprecated_endpoint :: "string \<Rightarrow> string \<Rightarrow> bool" where
  "deprecated_endpoint prov url = (prov = ''zai'' \<and> sublist ''/api/paas/v4/'' url)"

text \<open>
  Modelled from the spec: the substitution of the replacement segment
  \<^verbatim>\<open>/api/coding/paas/v4\<close> in the base URL (section 4.4).
\<close>

definition replacement_base_url :: "string \<Rightarrow> string" where
  "replacement_base_url base = str_replace ''/api/paas/v4'' ''/api/coding/paas/v4'' base"

text \<open>
  Modelled from the spec: the incremental frames of a streamed response (sections 4.2 and 6):
  an OpenAI-compatible chunk with \<open>delta.content\<close>,
  \<open>delta.reasoning_content\<close>, tool-call fragments by index and
  \<open>finish_reason\<close>; an Anthropic content block with its type and text, a tool-call
  fragment, the stop reason.
\<close>

datatype frame =
    OpenAIChunk "string option" "string option" "(nat \<times> string) list" "string option"
  | AnthropicBlock string string
  | AnthropicToolFragment nat string
  | AnthropicStop string

text \<open>
  Modelled from the spec: what a successful request yields (section 4.2): a stream of frames,
  or in the non-streaming response mode a complete message (content, tool calls, finish
  reason).
\<close>

datatype response = Streamed "frame list" | Whole string "(nat \<times> string) list" "string option"

text \<open>
  Modelled from the spec: the outcome of one HTTP request (sections 4.2 and 4.3): a transient
  failure (one of the two timeouts expired, after the frames given had arrived; none had when
  the first byte was late), a non-2xx response with status and raw body, or a response.
\<close>

datatype outcome = Timeout "frame list" | HttpStatus nat string | Reply response

text \<open>
  Modelled from the spec: the vendor endpoint, the environment of
  \<open>agent/model.py\<close>: the outcome of the \<open>n\<close>-th HTTP request of a
  call, given its URL and body.
\<close>

type_synonym server = "nat \<Rightarrow> string \<Rightarrow> json \<Rightarrow> outcome"

text \<open>
  Modelled from the spec: the delta events extracted from one frame (section 4.2).
\<close>

fun deltas_of_frame :: "frame \<Rightarrow> delta_event list" where
  "deltas_of_frame (OpenAIChunk content reasoning fragments finish) =
     (case reasoning of None \<Rightarrow> [] | Some r \<Rightarrow> [(Thinking, r)])
     @ (case content of None \<Rightarrow> [] | Some c \<Rightarrow> [(Text, c)])
     @ map (\<lambda>f. (ToolCall, snd f)) fragments"
| "deltas_of_frame (AnthropicBlock ty txt) =
     (if ty = ''text'' then [(Text, txt)] else if ty = ''thinking'' then [(Thinking, txt)] else [])"
| "deltas_of_frame (AnthropicToolFragment i f) = [(ToolCall, f)]"
| "deltas_of_frame (AnthropicStop r) = []"

text \<open>
  Modelled from the spec: the tool-call fragments of one frame, with their index (section
  4.2).
\<close>

fun fragments_of_frame :: "frame \<Rightarrow> (nat \<times> string) list" where
  "fragments_of_frame (OpenAIChunk content reasoning fragments finish) = fragments"
| "fragments_of_frame (AnthropicToolFragment i f) = [(i, f)]"
| "fragments_of_frame fr = []"

text \<open>
  Modelled from the spec: the stop/finish reason a frame carries, if any (section 4.2).
\<close>

fun reason_of_frame :: "frame \<Rightarrow> string option" where
  "reason_of_frame (OpenAIChunk content reasoning fragments finish) = finish"
| "reason_of_frame (AnthropicStop r) = Some r"
| "reason_of_frame fr = None"

text \<open>
  Modelled from the spec: tool-call fragments accumulate by index (section 4.2).
\<close>

fun add_fragment :: "nat \<times> string \<Rightarrow> (nat \<times> string) list \<Rightarrow> (nat \<times> string) list" where
  "add_fragment (i, f) [] = [(i, f)]"
| "add_fragment (i, f) ((j, g) # acc) =
     (if i = j then (j, g @ f) # acc else (j, g) # add_fragment (i, f) acc)"

text \<open>
  Modelled from the spec: the concatenation, in emission order, of the fragments of the
  text-kind delta events (section 3, invariants).
\<close>

definition text_of_deltas :: "delta_event list \<Rightarrow> string" where
  "text_of_deltas ds = concat (map snd (filter (\<lambda>d. fst d = Text) ds))"

text \<open>
  Modelled from the spec: the vendor's terminal stop/finish reason of a stream (section 4.2).
\<close>

definition last_reason :: "frame list \<Rightarrow> string option" where
  "last_reason frames = (case filter (\<lambda>r. r \<noteq> None) (map reason_of_frame frames) of
     [] \<Rightarrow> None | rs \<Rightarrow> last rs)"

text \<open>
  Modelled from the spec: the side effects of one \<open>complete()\<close> call (section
  4.5): the invocations of \<open>on_content_delta\<close> and of
  \<open>on_base_url_persist\<close> in order, every HTTP request made, and every submission
  to the Transport Engine with the result it came back with.
\<close>

record effects =
  deltas :: "delta_event list"
  persisted :: "string list"
  requests :: "(string \<times> json) list"
  submitted :: "(string \<times> json) list"
  results :: "(error + response) list"

text \<open>
  Modelled from the spec: the effects at the start of a \<open>complete()\<close> call.
\<close>

definition no_effects :: effects where
  "no_effects = \<lparr>deltas = [], persisted = [], requests = [], submitted = [], results = []\<rparr>"

text \<open>
  Modelled from the spec: the delta events of a response (section 4.2): those of its frames in
  order; the non-streaming mode yields zero deltas.
\<close>

fun stream_deltas :: "response \<Rightarrow> delta_event list" where
  "stream_deltas (Streamed frames) = concat (map deltas_of_frame frames)"
| "stream_deltas (Whole content calls reason) = []"

text \<open>
  Modelled from the spec: the delta events handed to \<open>on_content_delta\<close> while the
  answer to one HTTP request arrives (section 4.2: each delta is handed over on arrival):
  those of the frames received, also when a timeout then cuts the stream off; a non-2xx
  answer carries none.
\<close>

fun answer_deltas :: "outcome \<Rightarrow> delta_event list" where
  "answer_deltas (Timeout frames) = concat (map deltas_of_frame frames)"
| "answer_deltas (HttpStatus status body) = []"
| "answer_deltas (Reply resp) = stream_deltas resp"


text \<open>
  Modelled from the spec: the result of a submission whose last HTTP request had the given
  outcome (sections 4.2 and 4.3): the response, an \<open>HTTPModelError\<close> with status
  and body, or the \<open>ModelError\<close> of the exhausted transient retries.
\<close>

fun result_of :: "outcome \<Rightarrow> error + response" where
  "result_of (Reply resp) = Inr resp"
| "result_of (HttpStatus status body) = Inl (HTTPModelError status body)"
| "result_of (Timeout frames) = Inl (ModelError ''timed out'')"

text \<open>
  Modelled from the spec: the Turn assembled on stream end (section 4.2): the text is the
  concatenation of the text-kind deltas, the tool calls are the accumulated fragments; the
  non-streaming mode takes the complete message.
\<close>

fun assemble :: "response \<Rightarrow> turn" where
  "assemble (Streamed frames) =
     \<lparr>turn_text = text_of_deltas (concat (map deltas_of_frame frames)),
      turn_tool_calls = foldl (\<lambda>acc f. add_fragment f acc) [] (concat (map fragments_of_frame frames)),
      turn_stop_reason = last_reason frames\<rparr>"
| "assemble (Whole content calls reason) =
     \<lparr>turn_text = content, turn_tool_calls = calls, turn_stop_reason = reason\<rparr>"

text \<open>
  Modelled from the spec: the terminal reason of a Turn signals throttling (section 4.3).
\<close>

definition throttled :: "tables \<Rightarrow> turn \<Rightarrow> bool" where
  "throttled T t = (case turn_stop_reason t of None \<Rightarrow> False | Some r \<Rightarrow> signals_throttling T r)"

text \<open>
  Modelled from the spec: the Transport Engine of \<open>agent/model.py\<close> (section 4.2):
  one request, retried with the identical payload on a transient failure, up to
  \<open>max_retries\<close> retries. It returns the result and the outcomes of the HTTP
  requests made, in order, the first being request number \<open>n\<close> of the call. Each
  attempt opens a new stream (section 5: nothing is shared across attempts): the result is
  that of the last attempt, and what an attempt handed over before a timeout cut it off
  stays handed over.
\<close>

fun transport ::
  "server \<Rightarrow> nat \<Rightarrow> nat \<Rightarrow> string \<Rightarrow> json \<Rightarrow> (error + response) \<times> outcome list" where
  "transport srv 0 n url payload =
     (case srv n url payload of
        Reply resp \<Rightarrow> (Inr resp, [Reply resp])
      | HttpStatus status body \<Rightarrow> (Inl (HTTPModelError status body), [HttpStatus status body])
      | Timeout frames \<Rightarrow> (Inl (ModelError ''timed out''), [Timeout frames]))"
| "transport srv (Suc r) n url payload =
     (case srv n url payload of
        Reply resp \<Rightarrow> (Inr resp, [Reply resp])
      | HttpStatus status body \<Rightarrow> (Inl (HTTPModelError status body), [HttpStatus status body])
      | Timeout frames \<Rightarrow>
          (case transport srv r (Suc n) url payload of (res, trace) \<Rightarrow> (res, Timeout frames # trace)))"

text \<open>
  Modelled from the spec: the end of a successful request (sections 4.2, 4.3 and 4.5): the
  Turn is assembled; a throttling reason raises \<open>RateLimitError\<close>, otherwise the
  Turn is appended to the conversation history.
\<close>

definition conclude :: "tables \<Rightarrow> response \<Rightarrow> conversation \<Rightarrow> (error + turn) \<times> conversation" where
  "conclude T resp conv =
     (let t = assemble resp
      in if throttled T t then (Inl (RateLimitError ''rate limited''), conv)
         else (Inr t, conv @ [\<lparr>msg_role = Assistant, msg_content = turn_text t, msg_tool_call = None\<rparr>]))"

text \<open>
  Modelled from the spec: the payload of a submission (section 4.4): built from scratch,
  without the rejected field once the unsupported-parameter degradation has fired.
\<close>

definition payload_of :: "tables \<Rightarrow> client \<Rightarrow> conversation \<Rightarrow> bool \<Rightarrow> json" where
  "payload_of T self conv stripped =
     (let built = fst (build_payload T self conv)
      in if stripped then without_field (rejected_field (vendor self)) built else built)"

text \<open>
  Modelled from the spec: one submission of \<open>complete()\<close> to the Transport Engine,
  with the current URL and payload.
\<close>

definition run_transport ::
  "tables \<Rightarrow> server \<Rightarrow> conversation \<Rightarrow> bool \<Rightarrow> client \<Rightarrow> effects
     \<Rightarrow> (error + response) \<times> outcome list" where
  "run_transport T srv conv stripped self fx =
     transport srv (max_retries (config self)) (length (requests fx)) (request_url self)
       (payload_of T self conv stripped)"

text \<open>
  Modelled from the spec: the record of one submission in the effects: its HTTP requests,
  one for each outcome, the delta events handed over while their answers arrived, and the
  result the submission came back with.
\<close>

definition log_run :: "effects \<Rightarrow> string \<Rightarrow> json \<Rightarrow> outcome list \<Rightarrow> effects" where
  "log_run fx url payload trace =
     fx\<lparr>requests := requests fx @ replicate (length trace) (url, payload),
        submitted := submitted fx @ [(url, payload)],
        results := results fx @ [result_of (last trace)],
        deltas := deltas fx @ concat (map answer_deltas trace)\<rparr>"

text \<open>
  Modelled from the spec: the condition of the unsupported-parameter degradation (section
  4.4), at most once per call.
\<close>

definition strip_applies :: "bool \<Rightarrow> vendor \<Rightarrow> string \<Rightarrow> bool" where
  "strip_applies stripped v body = (\<not> stripped \<and> names_field (rejected_field v) body)"

text \<open>
  Modelled from the spec: the condition of the endpoint-fallback degradation (section 4.4), at
  most once per call.
\<close>

definition swap_applies :: "bool \<Rightarrow> nat \<Rightarrow> string \<Rightarrow> string \<Rightarrow> bool" where
  "swap_applies swapped status prov url = (\<not> swapped \<and> status = 404 \<and> deprecated_endpoint prov url)"

text \<open>
  Modelled from the spec: the update of the client's in-memory base URL (section 4.4).
\<close>

definition switch_base_url :: "client \<Rightarrow> client" where
  "switch_base_url self = self\<lparr>config := (config self)\<lparr>base_url := replacement_base_url (base_url (config self))\<rparr>\<rparr>"

text \<open>
  Modelled from the spec: an invocation of the callback
  \<open>on_base_url_persist(new_base_url)\<close> (section 6).
\<close>

definition on_base_url_persist :: "effects \<Rightarrow> string \<Rightarrow> effects" where
  "on_base_url_persist fx new_base_url = fx\<lparr>persisted := persisted fx @ [new_base_url]\<rparr>"

text \<open>
  Modelled from the spec: the client after a degradation step: its base URL is replaced when
  the endpoint fallback fires.
\<close>

definition degraded_client :: "bool \<Rightarrow> client \<Rightarrow> client" where
  "degraded_client swap self = (if swap then switch_base_url self else self)"

text \<open>
  Modelled from the spec: the effects after a degradation step:
  \<open>on_base_url_persist\<close> is invoked when the endpoint fallback fires.
\<close>

definition degraded_effects :: "bool \<Rightarrow> client \<Rightarrow> effects \<Rightarrow> effects" where
  "degraded_effects swap self fx =
     (if swap then on_base_url_persist fx (base_url (config (switch_base_url self))) else fx)"

text \<open>
  Modelled from the spec: the Retry/Degradation Controller of \<open>agent/model.py\<close>
  (sections 4.4 and 4.5). A submission that yields a response ends the call; an HTTPModelError
  fires each degradation whose condition holds and that has not fired yet (the two paths are
  independent), and the call resubmits once; any other error, and an HTTPModelError that fires
  nothing, propagates.
\<close>

function controller ::
  "tables \<Rightarrow> server \<Rightarrow> conversation \<Rightarrow> bool \<Rightarrow> bool \<Rightarrow> client \<Rightarrow> effects
     \<Rightarrow> (error + turn) \<times> conversation \<times> client \<times> effects" where
  "controller T srv conv stripped swapped self fx =
     (let run = run_transport T srv conv stripped self fx;
          fx1 = log_run fx (request_url self) (payload_of T self conv stripped) (snd run)
      in case fst run of
           Inr resp \<Rightarrow> (case conclude T resp conv of (res, conv') \<Rightarrow> (res, conv', self, fx1))
         | Inl (HTTPModelError status body) \<Rightarrow>
             (let strip = strip_applies stripped (vendor self) body;
                  swap = swap_applies swapped status (provider (config self)) (request_url self)
              in if strip \<or> swap
                 then controller T srv conv (stripped \<or> strip) (swapped \<or> swap)
                        (degraded_client swap self) (degraded_effects swap self fx1)
                 else (Inl (HTTPModelError status body), conv, self, fx1))
         | Inl e \<Rightarrow> (Inl e, conv, self, fx1))"
  by pat_completeness auto
termination
  by (relation "measure (\<lambda>(T, srv, conv, stripped, swapped, self, fx).
        (if stripped then 0 else 1) + (if swapped then 0 else (1::nat)))")
     (auto simp: strip_applies_def swap_applies_def)

declare controller.simps [simp del]

text \<open>
  Modelled from the spec: \<open>create_conversation(system_prompt,
  first_user_message)\<close> (section 4.5).
\<close>

definition create_conversation :: "string \<Rightarrow> string \<Rightarrow> conversation" where
  "create_conversation system_prompt first_user_message =
     [\<lparr>msg_role = System, msg_content = system_prompt, msg_tool_call = None\<rparr>,
      \<lparr>msg_role = User, msg_content = first_user_message, msg_tool_call = None\<rparr>]"

text \<open>
  Modelled from the spec: \<open>complete(conversation)\<close> (section 4.5): the controller
  started with no degradation used and no effects. It returns the Turn or the error, the
  conversation, the client and the effects of the call.
\<close>

definition complete ::
  "tables \<Rightarrow> server \<Rightarrow> client \<Rightarrow> conversation \<Rightarrow> (error + turn) \<times> conversation \<times> client \<times> effects" where
  "complete T srv self conv = controller T srv conv False False self no_effects"

subsection \<open>Concrete clients and endpoints\<close>

text \<open>
  Tables for the concrete runs: \<open>claude-opus-4-6\<close> is the adaptive-thinking model
  and \<open>rate_limit\<close> the throttling reason of \<open>tests/test_model.py\<close>;
  the two open budgets are sample values.
\<close>

definition test_tables :: tables where
  "test_tables = \<lparr>adaptive_thinking = (\<lambda>m. m = ''claude-opus-4-6''), budget_low = 1024,
     budget_high = 16384, default_temperature = 1,
     signals_throttling = (\<lambda>r. r = ''rate_limit'')\<rparr>"

text \<open>
  The configuration of the clients built in \<open>tests/test_model.py\<close>.
\<close>

definition test_config :: "string \<Rightarrow> string \<Rightarrow> string \<Rightarrow> effort \<Rightarrow> request_config" where
  "test_config m url prov e = \<lparr>model_id = m, credential = ''k'', base_url = url, provider = prov,
     reasoning_effort = e, thinking_mode = None, max_retries = 3, first_byte_timeout = 10,
     stream_timeout = 120\<rparr>"

text \<open>
  \<^verbatim>\<open>OpenAICompatibleModel(model="gpt-4.1-mini", api_key="k",
  reasoning_effort="high")\<close>.
\<close>

definition openai_client :: client where
  "openai_client = \<lparr>vendor = OpenAICompatible,
     config = test_config ''gpt-4.1-mini'' ''https://api.openai.com/v1'' ''openai'' High\<rparr>"


text \<open>
  The configuration of \<open>test_anthropic_payload_includes_thinking_budget\<close>.
\<close>

definition sonnet_config :: request_config where
  "sonnet_config = test_config ''claude-sonnet-4-5'' ''https://api.anthropic.com/v1'' ''anthropic'' Medium"

text \<open>
  The configuration of \<open>test_anthropic_opus46_uses_adaptive_thinking\<close>.
\<close>

definition opus_config :: request_config where
  "opus_config = test_config ''claude-opus-4-6'' ''https://api.anthropic.com/v1'' ''anthropic'' High"

text \<open>\<^verbatim>\<open>model.create_conversation("system", "user msg")\<close>.\<close>

definition test_conversation :: conversation where
  "test_conversation = create_conversation ''system'' ''user msg''"




text \<open>
  The endpoint of \<open>test_openai_finish_reason_rate_limit_raises_rate_limit_error\<close>.
\<close>

definition throttling_server :: server where
  "throttling_server n url payload = Reply (Streamed
     [OpenAIChunk (Some ''partial'') None [] None, OpenAIChunk None None [] (Some ''rate_limit'')])"

text \<open>
  The endpoint of \<open>test_openai_reasoning_content_forwards_as_thinking\<close>.
\<close>

definition reasoning_server :: server where
  "reasoning_server n url payload = Reply (Streamed
     [OpenAIChunk None (Some ''thinking text'') [] None,
      OpenAIChunk (Some ''final text'') None [] None,
      OpenAIChunk None None [] (Some ''stop'')])"





section \<open>Properties of the censor\<close>

subsection \<open>Matches of the two patterns\<close>

text \<open>
  A match ends inside the text, and a match of either entity pattern holds at least one
  capitalised word: \<open>re_sub_from\<close> never meets an empty match of these patterns.
\<close>

lemma rx_ends_bounds:
  "e \<in> set (rx_ends uni t r p) \<Longrightarrow> p \<le> length t \<Longrightarrow> p \<le> e \<and> e \<le> length t"
proof (induction uni t r p arbitrary: e rule: rx_ends.induct)
  case (1 uni t lo hi p)
  then show ?case by (auto split: if_splits)
next
  case (2 uni t cs p)
  then show ?case by (auto split: if_splits)
next
  case (3 uni t s p)
  then have tk: "take (length s) (drop p t) = s" and e: "e = p + length s" by (auto split: if_splits)
  have "length (take (length s) (drop p t)) \<le> length t - p" by simp
  with tk have "length s \<le> length t - p" by simp
  with e "3.prems"(2) show ?case by simp
next
  case (4 uni t p)
  then show ?case by (auto split: if_splits)
next
  case (5 uni t a b p)
  from "5.prems"(1) obtain m where m: "m \<in> set (rx_ends uni t a p)" and e: "e \<in> set (rx_ends uni t b m)"
    by auto
  from "5.IH"(1) [OF m "5.prems"(2)] have pm: "p \<le> m" "m \<le> length t" by simp_all
  from "5.IH"(2) [OF m e pm(2)] pm show ?case by simp
next
  case (6 uni t a b p)
  from "6.prems"(1) have "e \<in> set (rx_ends uni t a p) \<or> e \<in> set (rx_ends uni t b p)" by simp
  with "6.IH" "6.prems"(2) show ?case by blast
next
  case (7 uni t a p)
  from "7.prems"(1) have "e \<in> set (rx_ends uni t a p) \<or> e = p" by auto
  with "7.IH" "7.prems"(2) show ?case by auto
next
  case (8 uni t a p)
  from "8.prems"(1) have "e \<in> set (concat (map (\<lambda>m. if p < m \<and> m \<le> length t
      then rx_ends uni t (Star a) m else []) (rx_ends uni t a p)) @ [p])"
    by (simp only: rx_ends.simps(8) [of uni t a p])
  then consider "e = p"
    | m where "m \<in> set (rx_ends uni t a p)" "p < m" "m \<le> length t" "e \<in> set (rx_ends uni t (Star a) m)"
    by (auto split: if_splits)
  then show ?case
  proof cases
    case 1
    with "8.prems"(2) show ?thesis by simp
  next
    case 2
    from "8.IH"(2) [OF 2(1) _ 2(4) 2(3)] 2(2,3) show ?thesis by simp
  qed
qed

lemma cap_word_consumes:
  assumes "e \<in> set (rx_ends uni t cap_word p)"
  shows "p < e \<and> e \<le> length t"
proof -
  from assms obtain m where m: "m \<in> set (rx_ends uni t (Rng 65 90) p)"
    and e: "e \<in> set (rx_ends uni t (Plus (Rng 97 122)) m)"
    by (auto simp: cap_word_def)
  from m have "m = Suc p" "p < length t" by (auto split: if_splits)
  with rx_ends_bounds [OF e] show ?thesis by simp
qed

lemma multi_cap_match_nonempty:
  assumes "rx_match uni RE_MULTI_CAP t p = Some e"
  shows "p < e \<and> e \<le> length t"
proof -
  from assms have "e \<in> set (rx_ends uni t RE_MULTI_CAP p)"
    by (auto simp: rx_match_def split: list.splits)
  then obtain a b c where a: "a \<in> set (rx_ends uni t WordB p)"
    and b: "b \<in> set (rx_ends uni t cap_word a)"
    and c: "c \<in> set (rx_ends uni t (Plus (Seq blanks cap_word)) b)"
    and e: "e \<in> set (rx_ends uni t WordB c)"
    by (auto simp: RE_MULTI_CAP_def)
  from a have "a = p" by (auto split: if_splits)
  moreover from e have "e = c" by (auto split: if_splits)
  moreover note cap_word_consumes [OF b] rx_ends_bounds [OF c]
  ultimately show ?thesis by simp
qed

lemma titled_match_nonempty:
  assumes "rx_match uni RE_TITLED t p = Some e"
  shows "p < e \<and> e \<le> length t"
proof -
  from assms have "e \<in> set (rx_ends uni t RE_TITLED p)"
    by (auto simp: rx_match_def split: list.splits)
  then obtain a b c d f g where a: "a \<in> set (rx_ends uni t WordB p)"
    and b: "b \<in> set (rx_ends uni t (alts (map Lit TITLES)) a)"
    and c: "c \<in> set (rx_ends uni t (Opt (OneOf [46])) b)"
    and d: "d \<in> set (rx_ends uni t blanks c)"
    and f: "f \<in> set (rx_ends uni t cap_word d)"
    and g: "g \<in> set (rx_ends uni t (Star (Seq blanks cap_word)) f)"
    and e: "e \<in> set (rx_ends uni t WordB g)"
    by (auto simp: RE_TITLED_def)
  from a have ap: "a = p" and pl: "p \<le> length t"
    by (auto simp: at_boundary_def split: if_splits)
  from e have "e = g" by (auto split: if_splits)
  moreover from rx_ends_bounds [OF b] ap pl have "p \<le> b" "b \<le> length t" by simp_all
  moreover from rx_ends_bounds [OF c] calculation have "b \<le> c" "c \<le> length t" by simp_all
  moreover from rx_ends_bounds [OF d] calculation have "c \<le> d" "d \<le> length t" by simp_all
  moreover note cap_word_consumes [OF f] rx_ends_bounds [OF g]
  ultimately show ?thesis by simp
qed


lemma replace_entity_length: "length (replace_entity m) = length m"
  by (simp add: replace_entity_def blocks_def)

lemma re_sub_from_length:
  assumes "\<And>m. length (f m) = length m"
  shows "length (re_sub_from uni r f t p) = length t - p"
  using assms
proof (induction uni r f t p rule: re_sub_from.induct)
  case (1 uni r g t p)
  note g = "1.prems"
  show ?case
  proof (cases "length t < p")
    case True
    then show ?thesis by (simp add: re_sub_from.simps [of uni r g t p])
  next
    case inside: False
    show ?thesis
    proof (cases "rx_match uni r t p")
      case None
      show ?thesis
      proof (cases "p < length t")
        case True
        from "1.IH"(1) [OF inside None True g] inside None True show ?thesis
          by (simp add: re_sub_from.simps [of uni r g t p])
      next
        case False
        with inside None show ?thesis
          by (simp add: re_sub_from.simps [of uni r g t p])
      qed
    next
      case (Some e)
      show ?thesis
      proof (cases "p < e \<and> e \<le> length t")
        case True
        then have pe: "p < e" and el: "e \<le> length t" by simp_all
        from "1.IH"(2) [OF inside Some True g] have "length (re_sub_from uni r g t e) = length t - e" .
        moreover have "re_sub_from uni r g t p = g (slice t p e) @ re_sub_from uni r g t e"
          using inside Some pe el by (simp add: re_sub_from.simps [of uni r g t p])
        ultimately show ?thesis using pe el by (simp add: g slice_def)
      next
        case nomatch: False
        show ?thesis
        proof (cases "p < length t")
          case True
          from "1.IH"(3) [OF inside Some nomatch True g] inside Some nomatch True show ?thesis
            by (auto simp: re_sub_from.simps [of uni r g t p] g)
        next
          case False
          have "length (g []) = 0" by (simp add: g)
          then have "g [] = []" by simp
          moreover have "re_sub_from uni r g t p = g []"
            by (subst re_sub_from.simps) (use False inside Some nomatch in auto)
          ultimately show ?thesis using False inside by simp
        qed
      qed
    qed
  qed
qed

lemma slice_Cons_Suc: "slice (x # xs) (Suc a) (Suc b) = slice xs a b"
  by (simp add: slice_def)

lemma slice_append_right: "length ys = n \<Longrightarrow> n \<le> a \<Longrightarrow> slice (ys @ zs) a b = slice zs (a - n) (b - n)"
  by (simp add: slice_def)

lemma slice_append_left: "slice (ys @ zs) 0 (length ys) = ys"
  by (simp add: slice_def)

lemma re_spans_from_bounds:
  "(s, e) \<in> set (re_spans_from uni r t p) \<Longrightarrow> p \<le> s \<and> s \<le> e \<and> e \<le> length t"
proof (induction uni r t p rule: re_spans_from.induct)
  case (1 uni r t p)
  show ?case
  proof (cases "length t < p")
    case True
    with "1.prems" show ?thesis by (simp add: re_spans_from.simps [of uni r t p])
  next
    case inside: False
    show ?thesis
    proof (cases "rx_match uni r t p")
      case None
      show ?thesis
      proof (cases "p < length t")
        case True
        with "1.prems" inside None have "(s, e) \<in> set (re_spans_from uni r t (Suc p))"
          by (simp add: re_spans_from.simps [of uni r t p])
        from "1.IH"(1) [OF inside None True this] show ?thesis by simp
      next
        case False
        with "1.prems" inside None show ?thesis by (simp add: re_spans_from.simps [of uni r t p])
      qed
    next
      case (Some e0)
      show ?thesis
      proof (cases "p < e0 \<and> e0 \<le> length t")
        case True
        then have pe: "p < e0" and el: "e0 \<le> length t" by simp_all
        from "1.prems" inside Some pe el
        have "(s, e) = (p, e0) \<or> (s, e) \<in> set (re_spans_from uni r t e0)"
          by (simp add: re_spans_from.simps [of uni r t p])
        then show ?thesis
        proof
          assume "(s, e) = (p, e0)"
          with pe el show ?thesis by simp
        next
          assume "(s, e) \<in> set (re_spans_from uni r t e0)"
          from "1.IH"(2) [OF inside Some True this] pe show ?thesis by simp
        qed
      next
        case nomatch: False
        show ?thesis
        proof (cases "p < length t")
          case True
          from "1.prems" inside Some nomatch True
          have "(s, e) = (p, p) \<or> (s, e) \<in> set (re_spans_from uni r t (Suc p))"
            by (auto simp: re_spans_from.simps [of uni r t p])
          then show ?thesis
          proof
            assume "(s, e) = (p, p)"
            with True show ?thesis by simp
          next
            assume "(s, e) \<in> set (re_spans_from uni r t (Suc p))"
            from "1.IH"(3) [OF inside Some nomatch True this] show ?thesis by simp
          qed
        next
          case False
          from "1.prems" inside Some nomatch False have "(s, e) = (p, p)"
            by (auto simp: re_spans_from.simps [of uni r t p])
          with inside show ?thesis by simp
        qed
      qed
    qed
  qed
qed


lemma re_sub_from_at_span:
  assumes "\<And>m. length (f m) = length m"
    and "(s, e) \<in> set (re_spans_from uni r t p)"
  shows "slice (re_sub_from uni r f t p) (s - p) (e - p) = f (slice t s e)"
  using assms
proof (induction uni r f t p rule: re_sub_from.induct)
  case (1 uni r g t p)
  note g = "1.prems"(1)
  note span = "1.prems"(2)
  have len_sub: "\<And>q. length (re_sub_from uni r g t q) = length t - q"
    by (rule re_sub_from_length) (rule g)
  have g_nil: "g [] = []"
    using g [of "[]"] by simp
  show ?case
  proof (cases "length t < p")
    case True
    with span show ?thesis by (simp add: re_spans_from.simps [of uni r t p])
  next
    case inside: False
    show ?thesis
    proof (cases "rx_match uni r t p")
      case None
      show ?thesis
      proof (cases "p < length t")
        case True
        with span inside None have later: "(s, e) \<in> set (re_spans_from uni r t (Suc p))"
          by (simp add: re_spans_from.simps [of uni r t p])
        from re_spans_from_bounds [OF later] have ps: "Suc p \<le> s" and se: "s \<le> e" by simp_all
        have out: "re_sub_from uni r g t p = t ! p # re_sub_from uni r g t (Suc p)"
          using inside None True by (simp add: re_sub_from.simps [of uni r g t p])
        have "s - p = Suc (s - Suc p)" and "e - p = Suc (e - Suc p)" using ps se by simp_all
        with out have "slice (re_sub_from uni r g t p) (s - p) (e - p)
            = slice (re_sub_from uni r g t (Suc p)) (s - Suc p) (e - Suc p)"
          by (simp add: slice_Cons_Suc)
        with "1.IH"(1) [OF inside None True g later] show ?thesis by simp
      next
        case False
        with span inside None show ?thesis by (simp add: re_spans_from.simps [of uni r t p])
      qed
    next
      case (Some e0)
      show ?thesis
      proof (cases "p < e0 \<and> e0 \<le> length t")
        case True
        then have pe: "p < e0" and el: "e0 \<le> length t" by simp_all
        have out: "re_sub_from uni r g t p = g (slice t p e0) @ re_sub_from uni r g t e0"
          using inside Some pe el by (simp add: re_sub_from.simps [of uni r g t p])
        have len_m: "length (g (slice t p e0)) = e0 - p"
          using pe el by (simp add: g slice_def)
        from span inside Some pe el
        have "(s, e) = (p, e0) \<or> (s, e) \<in> set (re_spans_from uni r t e0)"
          by (simp add: re_spans_from.simps [of uni r t p])
        then show ?thesis
        proof
          assume "(s, e) = (p, e0)"
          then have "s = p" and "e = e0" by simp_all
          with out len_m show ?thesis
            using slice_append_left [of "g (slice t p e0)" "re_sub_from uni r g t e0"] by simp
        next
          assume later: "(s, e) \<in> set (re_spans_from uni r t e0)"
          from re_spans_from_bounds [OF later] have es: "e0 \<le> s" and se: "s \<le> e" by simp_all
          have "slice (re_sub_from uni r g t p) (s - p) (e - p)
              = slice (re_sub_from uni r g t e0) (s - p - (e0 - p)) (e - p - (e0 - p))"
            unfolding out using len_m es pe by (intro slice_append_right) simp_all
          moreover have "s - p - (e0 - p) = s - e0" and "e - p - (e0 - p) = e - e0"
            using es se pe by simp_all
          ultimately show ?thesis
            using "1.IH"(2) [OF inside Some True g later] by simp
        qed
      next
        case nomatch: False
        show ?thesis
        proof (cases "p < length t")
          case True
          have out: "re_sub_from uni r g t p = t ! p # re_sub_from uni r g t (Suc p)"
            using inside Some nomatch True g_nil
            by (auto simp: re_sub_from.simps [of uni r g t p])
          from span inside Some nomatch True
          have "(s, e) = (p, p) \<or> (s, e) \<in> set (re_spans_from uni r t (Suc p))"
            by (auto simp: re_spans_from.simps [of uni r t p])
          then show ?thesis
          proof
            assume "(s, e) = (p, p)"
            then show ?thesis by (simp add: slice_def g_nil)
          next
            assume later: "(s, e) \<in> set (re_spans_from uni r t (Suc p))"
            from re_spans_from_bounds [OF later] have ps: "Suc p \<le> s" and se: "s \<le> e" by simp_all
            have "s - p = Suc (s - Suc p)" and "e - p = Suc (e - Suc p)" using ps se by simp_all
            with out have "slice (re_sub_from uni r g t p) (s - p) (e - p)
                = slice (re_sub_from uni r g t (Suc p)) (s - Suc p) (e - Suc p)"
              by (simp add: slice_Cons_Suc)
            with "1.IH"(3) [OF inside Some nomatch True g later] show ?thesis by simp
          qed
        next
          case False
          from span inside Some nomatch False have "(s, e) = (p, p)"
            by (auto simp: re_spans_from.simps [of uni r t p])
          then show ?thesis by (simp add: slice_def g_nil)
        qed
      qed
    qed
  qed
qed

lemma re_sub_at_span:
  assumes "\<And>m. length (f m) = length m"
    and "(s, e) \<in> set (re_spans_from uni r t 0)"
  shows "slice (re_sub uni r f t) s e = f (slice t s e)"
  using re_sub_from_at_span [OF assms] by (simp add: re_sub_def)

lemma replace_entity_whitelisted:
  "list_ex (\<lambda>term. sublist term m) ENTITY_WHITELIST \<Longrightarrow> replace_entity m = m"
  by (simp add: replace_entity_def)

text \<open>
  C7. \<open>censor_text\<close> is pure post-processing: the call leaves the censor object exactly as
  it found it (so the replacement table is the same before and after), and its result
  depends on nothing but the text and the replacement table: a censor object with the
  same table, whatever else it carries, gives the same result.
\<close>

theorem censor_text_frame:
  "snd (censor_text uni self t) = self \<and>
   (replacements other = replacements self \<longrightarrow>
      fst (censor_text uni other t) = fst (censor_text uni self t))"
  by (simp add: censor_text_def Let_def)


text \<open>C7 at a censor with one table entry and the same censor carrying an extra field.\<close>

theorem censor_text_frame_witness:
  "replacements \<lparr>replacements = [(ustr ''bob'', blocks 3)], \<dots> = True\<rparr>
     = replacements \<lparr>replacements = [(ustr ''bob'', blocks 3)]\<rparr>
   \<and> snd (censor_text no_uni \<lparr>replacements = [(ustr ''bob'', blocks 3)]\<rparr> (ustr ''hi bob''))
     = \<lparr>replacements = [(ustr ''bob'', blocks 3)]\<rparr>
   \<and> fst (censor_text no_uni \<lparr>replacements = [(ustr ''bob'', blocks 3)], \<dots> = True\<rparr> (ustr ''hi bob''))
     = fst (censor_text no_uni \<lparr>replacements = [(ustr ''bob'', blocks 3)]\<rparr> (ustr ''hi bob''))"
  using censor_text_frame [of no_uni "\<lparr>replacements = [(ustr ''bob'', blocks 3)]\<rparr>" "ustr ''hi bob''"
      "\<lparr>replacements = [(ustr ''bob'', blocks 3)], \<dots> = True\<rparr>"]
  by simp

text \<open>
  C10, as the code has it. The whitelist is consulted once per match and per pass: a match
  found by the titled pass that contains a whitelist term stands unchanged in the output
  of that pass, and a match found by the multi-capitalised pass (the last stage) in the
  text handed to it stands unchanged in the output of \<open>censor_text\<close>.
\<close>

theorem whitelisted_match_passes:
  assumes "list_ex (\<lambda>term. sublist term (slice u s e)) ENTITY_WHITELIST"
  shows "((s, e) \<in> set (re_spans_from uni RE_TITLED u 0) \<longrightarrow>
            slice (sub_titled uni u) s e = slice u s e) \<and>
         ((s, e) \<in> set (re_spans_from uni RE_MULTI_CAP u 0) \<and>
            u = sub_titled uni (replace_paths (replacements self) t) \<longrightarrow>
            slice (fst (censor_text uni self t)) s e = slice u s e)"
proof (intro conjI impI)
  assume "(s, e) \<in> set (re_spans_from uni RE_TITLED u 0)"
  then have "slice (sub_titled uni u) s e = replace_entity (slice u s e)"
    unfolding sub_titled_def by (intro re_sub_at_span replace_entity_length)
  with assms show "slice (sub_titled uni u) s e = slice u s e"
    by (simp add: replace_entity_whitelisted)
next
  assume a: "(s, e) \<in> set (re_spans_from uni RE_MULTI_CAP u 0) \<and>
     u = sub_titled uni (replace_paths (replacements self) t)"
  then have span: "(s, e) \<in> set (re_spans_from uni RE_MULTI_CAP u 0)" ..
  from a have "fst (censor_text uni self t) = sub_multi_cap uni u"
    by (simp add: censor_text_def Let_def)
  moreover have "slice (sub_multi_cap uni u) s e = replace_entity (slice u s e)"
    unfolding sub_multi_cap_def using replace_entity_length span by (rule re_sub_at_span)
  ultimately show "slice (fst (censor_text uni self t)) s e = slice u s e"
    using assms by (simp add: replace_entity_whitelisted)
qed


text \<open>C10 at \<^verbatim>\<open>"Dr May Smith"\<close>, which both patterns match as a whole.\<close>

theorem whitelisted_match_passes_witness:
  "list_ex (\<lambda>term. sublist term (slice (ustr ''Dr May Smith'') 0 12)) ENTITY_WHITELIST
   \<and> (0, 12) \<in> set (re_spans_from no_uni RE_TITLED (ustr ''Dr May Smith'') 0)
   \<and> (0, 12) \<in> set (re_spans_from no_uni RE_MULTI_CAP (ustr ''Dr May Smith'') 0)
   \<and> ustr ''Dr May Smith''
       = sub_titled no_uni (replace_paths (replacements (DemoCensor_init tmp_proj)) (ustr ''Dr May Smith''))
   \<and> slice (sub_titled no_uni (ustr ''Dr May Smith'')) 0 12 = slice (ustr ''Dr May Smith'') 0 12
   \<and> slice (fst (censor_text no_uni (DemoCensor_init tmp_proj) (ustr ''Dr May Smith''))) 0 12
       = slice (ustr ''Dr May Smith'') 0 12"
proof -
  have h1: "list_ex (\<lambda>term. sublist term (slice (ustr ''Dr May Smith'') 0 12)) ENTITY_WHITELIST"
    by code_simp
  have h2: "(0, 12) \<in> set (re_spans_from no_uni RE_TITLED (ustr ''Dr May Smith'') 0)"
    by code_simp
  have h3: "(0, 12) \<in> set (re_spans_from no_uni RE_MULTI_CAP (ustr ''Dr May Smith'') 0)"
    by code_simp
  have h4: "ustr ''Dr May Smith''
       = sub_titled no_uni (replace_paths (replacements (DemoCensor_init tmp_proj)) (ustr ''Dr May Smith''))"
    by code_simp
  from whitelisted_match_passes [OF h1, of no_uni "DemoCensor_init tmp_proj" "ustr ''Dr May Smith''"]
    h1 h2 h3 h4
  show ?thesis by blast
qed

text \<open>
  C10 as stated fails: the titled pattern matches all of \<^verbatim>\<open>"Mayor. Walsh Smith"\<close>, the
  whitelist term \<^verbatim>\<open>"May"\<close> occurs in it, and \<open>censor_text\<close> still blocks out
  \<^verbatim>\<open>"Walsh Smith"\<close>: the later multi-capitalised pass matches it on its own.
\<close>

theorem whitelist_pass_through_counterexample:
  "(0, 18) \<in> set (re_spans_from no_uni RE_TITLED (ustr ''Mayor. Walsh Smith'') 0)
   \<and> ustr ''May'' \<in> set ENTITY_WHITELIST
   \<and> sublist (ustr ''May'') (slice (ustr ''Mayor. Walsh Smith'') 0 18)
   \<and> slice (fst (censor_text no_uni (DemoCensor_init tmp_proj) (ustr ''Mayor. Walsh Smith''))) 0 18
       = ustr ''Mayor. '' @ blocks 11
   \<and> slice (fst (censor_text no_uni (DemoCensor_init tmp_proj) (ustr ''Mayor. Walsh Smith''))) 0 18
       \<noteq> slice (ustr ''Mayor. Walsh Smith'') 0 18"
proof -
  have "(0, 18) \<in> set (re_spans_from no_uni RE_TITLED (ustr ''Mayor. Walsh Smith'') 0)"
    by code_simp
  moreover have "ustr ''May'' \<in> set ENTITY_WHITELIST"
    by code_simp
  moreover have "sublist (ustr ''May'') (slice (ustr ''Mayor. Walsh Smith'') 0 18)"
    by code_simp
  moreover have out: "slice (fst (censor_text no_uni (DemoCensor_init tmp_proj) (ustr ''Mayor. Walsh Smith''))) 0 18
       = ustr ''Mayor. '' @ blocks 11"
    by code_simp
  moreover have "ustr ''Mayor. '' @ blocks 11 \<noteq> slice (ustr ''Mayor. Walsh Smith'') 0 18"
    by code_simp
  ultimately show ?thesis by simp
qed

subsection \<open>Censoring twice\<close>


lemma sublist_behind_blocks:
  "b \<notin> set p \<Longrightarrow> p \<noteq> [] \<Longrightarrow> sublist p (replicate n b @ rest) \<Longrightarrow> sublist p rest"
proof (induction n)
  case 0
  then show ?case by simp
next
  case (Suc n)
  from Suc.prems(3) have "prefix p (b # replicate n b @ rest) \<or> sublist p (replicate n b @ rest)"
    by (simp add: sublist_Cons_right)
  moreover have "\<not> prefix p (b # replicate n b @ rest)"
    using Suc.prems(1,2) by (cases p) auto
  ultimately show ?case using Suc by blast
qed

lemma prefix_of_replaced:
  "block \<notin> set p \<Longrightarrow> old \<noteq> [] \<Longrightarrow> prefix p (str_replace old (blocks (length old)) t) \<Longrightarrow> prefix p t"
proof (induction old "blocks (length old)" t arbitrary: p rule: str_replace.induct)
  case (1 old)
  then show ?case by simp
next
  case (2 old c cs)
  show ?case
  proof (cases "prefix old (c # cs)")
    case True
    with 2 have "prefix p (blocks (length old) @ str_replace old (blocks (length old)) (drop (length old) (c # cs)))"
      by simp
    moreover have "blocks (length old) = block # blocks (length old - 1)"
      using "2.prems"(2) by (cases old) (simp_all add: blocks_def)
    ultimately have "p = []"
      using "2.prems"(1) by (cases p) auto
    then show ?thesis by simp
  next
    case False
    with 2 have pre: "prefix p (c # str_replace old (blocks (length old)) cs)" by simp
    show ?thesis
    proof (cases p)
      case Nil
      then show ?thesis by simp
    next
      case (Cons x xs)
      with pre have "x = c" and "prefix xs (str_replace old (blocks (length old)) cs)" by simp_all
      moreover have "block \<notin> set xs" using "2.prems"(1) Cons by simp
      ultimately show ?thesis
        using "2.hyps"(3) [of xs] "2.prems"(2) False Cons by simp
    qed
  qed
qed

lemma sublist_of_replaced:
  "block \<notin> set p \<Longrightarrow> old \<noteq> [] \<Longrightarrow> sublist p (str_replace old (blocks (length old)) t) \<Longrightarrow> sublist p t"
proof (induction old "blocks (length old)" t rule: str_replace.induct)
  case (1 old)
  then show ?case by simp
next
  case (2 old c cs)
  show ?case
  proof (cases "p = []")
    case True
    then show ?thesis by simp
  next
    case nonempty: False
    show ?thesis
    proof (cases "prefix old (c # cs)")
      case True
      with 2 have "sublist p (replicate (length old) block @ str_replace old (blocks (length old)) (drop (length old) (c # cs)))"
        by (simp add: blocks_def)
      with "2.prems"(1) nonempty
      have "sublist p (str_replace old (blocks (length old)) (drop (length old) (c # cs)))"
        by (rule sublist_behind_blocks)
      with "2.hyps"(2) "2.prems"(1,2) True have "sublist p (drop (length old) (c # cs))" by simp
      then show ?thesis
        using sublist_drop [of "length old" "c # cs"] sublist_order.order.trans by blast
    next
      case False
      with 2 have "sublist p (c # str_replace old (blocks (length old)) cs)" by simp
      then have "prefix p (c # str_replace old (blocks (length old)) cs)
          \<or> sublist p (str_replace old (blocks (length old)) cs)"
        by (simp add: sublist_Cons_right)
      then show ?thesis
      proof
        assume "prefix p (c # str_replace old (blocks (length old)) cs)"
        then have "prefix p (str_replace old (blocks (length old)) (c # cs))"
          using False "2.prems"(2) by simp
        with "2.prems"(1,2) have "prefix p (c # cs)" by (rule prefix_of_replaced)
        then show ?thesis by (rule prefix_imp_sublist)
      next
        assume "sublist p (str_replace old (blocks (length old)) cs)"
        with "2.hyps"(3) "2.prems"(1,2) False have "sublist p cs" by simp
        then show ?thesis by (simp add: sublist_Cons_right)
      qed
    qed
  qed
qed

lemma replaced_is_absent:
  "block \<notin> set old \<Longrightarrow> old \<noteq> [] \<Longrightarrow> \<not> sublist old (str_replace old (blocks (length old)) t)"
proof (induction old "blocks (length old)" t rule: str_replace.induct)
  case (1 old)
  then show ?case by simp
next
  case (2 old c cs)
  show ?case
  proof (cases "prefix old (c # cs)")
    case True
    show ?thesis
    proof
      assume "sublist old (str_replace old (blocks (length old)) (c # cs))"
      with True "2.prems"(2)
      have "sublist old (replicate (length old) block @ str_replace old (blocks (length old)) (drop (length old) (c # cs)))"
        by (simp add: blocks_def)
      with "2.prems"(1,2)
      have "sublist old (str_replace old (blocks (length old)) (drop (length old) (c # cs)))"
        by (rule sublist_behind_blocks)
      with "2.hyps"(2) "2.prems" True show False by simp
    qed
  next
    case False
    show ?thesis
    proof
      assume a: "sublist old (str_replace old (blocks (length old)) (c # cs))"
      with False "2.prems"(2) have "prefix old (c # str_replace old (blocks (length old)) cs)
          \<or> sublist old (str_replace old (blocks (length old)) cs)"
        by (simp add: sublist_Cons_right)
      then show False
      proof
        assume "prefix old (c # str_replace old (blocks (length old)) cs)"
        then have "prefix old (str_replace old (blocks (length old)) (c # cs))"
          using False "2.prems"(2) by simp
        with "2.prems"(1,2) have "prefix old (c # cs)" by (rule prefix_of_replaced)
        with False show False by simp
      next
        assume "sublist old (str_replace old (blocks (length old)) cs)"
        with "2.hyps"(3) "2.prems" False show False by simp
      qed
    qed
  qed
qed


lemma replace_paths_Cons:
  "replace_paths (x # xs) t = replace_paths xs (str_replace (fst x) (snd x) t)"
  by (simp add: replace_paths_def split_def)

lemma replace_paths_keeps_absent:
  "block \<notin> set p \<Longrightarrow> \<forall>x \<in> set reps. fst x \<noteq> [] \<and> snd x = blocks (length (fst x)) \<Longrightarrow>
   \<not> sublist p t \<Longrightarrow> \<not> sublist p (replace_paths reps t)"
proof (induction reps arbitrary: t)
  case Nil
  then show ?case by (simp add: replace_paths_def)
next
  case (Cons x xs)
  from Cons.prems(2) have x: "fst x \<noteq> []" "snd x = blocks (length (fst x))" by simp_all
  have "\<not> sublist p (str_replace (fst x) (snd x) t)"
    using sublist_of_replaced [OF Cons.prems(1) x(1)] Cons.prems(3) x(2) by auto
  with Cons show ?case by (simp add: replace_paths_Cons)
qed

lemma replace_paths_all_absent:
  "\<forall>x \<in> set reps. fst x \<noteq> [] \<and> block \<notin> set (fst x) \<and> snd x = blocks (length (fst x)) \<Longrightarrow>
   \<forall>x \<in> set reps. \<not> sublist (fst x) (replace_paths reps t)"
proof (induction reps arbitrary: t)
  case Nil
  then show ?case by simp
next
  case (Cons x xs)
  from Cons.prems have x: "fst x \<noteq> []" "block \<notin> set (fst x)" "snd x = blocks (length (fst x))"
    by simp_all
  from Cons.prems have rest: "\<forall>y \<in> set xs. fst y \<noteq> [] \<and> snd y = blocks (length (fst y))"
    by simp
  have "\<not> sublist (fst x) (str_replace (fst x) (snd x) t)"
    using replaced_is_absent [OF x(2) x(1)] x(3) by simp
  with x(2) rest have "\<not> sublist (fst x) (replace_paths xs (str_replace (fst x) (snd x) t))"
    by (rule replace_paths_keeps_absent)
  moreover have "\<forall>y \<in> set xs. \<not> sublist (fst y) (replace_paths xs (str_replace (fst x) (snd x) t))"
    using Cons.IH Cons.prems by simp
  ultimately show ?case by (simp add: replace_paths_Cons)
qed


lemma add_parts_entries:
  "\<forall>x \<in> set reps. Q x \<Longrightarrow>
   \<forall>part \<in> set ps. part \<noteq> [] \<longrightarrow> Q (part, blocks (length part)) \<Longrightarrow>
   \<forall>x \<in> set (add_parts pn ps reps). Q x"
  by (induction pn ps reps rule: add_parts.induct) auto

lemma build_path_replacements_entries:
  assumes "\<forall>part \<in> set (parts workspace). block \<notin> set part"
  shows "\<forall>x \<in> set (build_path_replacements workspace []).
           fst x \<noteq> [] \<and> block \<notin> set (fst x) \<and> snd x = blocks (length (fst x))"
proof -
  have "\<forall>x \<in> set (add_parts (name workspace) (parts workspace) []).
           fst x \<noteq> [] \<and> block \<notin> set (fst x) \<and> snd x = blocks (length (fst x))"
    using assms by (intro add_parts_entries) simp_all
  then show ?thesis by (simp add: build_path_replacements_def)
qed






subsection \<open>Runs of blocks of the same length\<close>

lemma blocks_censored: "list_all2 (\<lambda>a b. b = a \<or> b = block) m (blocks (length m))"
  by (simp add: list_all2_conv_all_nth blocks_def)

lemma same_censored: "list_all2 (\<lambda>a b. b = a \<or> b = block) m m"
  by (simp add: list_all2_conv_all_nth)

lemma censored_trans:
  "list_all2 (\<lambda>a b. b = a \<or> b = block) x y \<Longrightarrow> list_all2 (\<lambda>a b. b = a \<or> b = block) y z \<Longrightarrow>
   list_all2 (\<lambda>a b. b = a \<or> b = block) x z"
  using list_all2_trans [of "\<lambda>a b. b = a \<or> b = block" "\<lambda>a b. b = a \<or> b = block"
      "\<lambda>a b. b = a \<or> b = block" x y z]
  by blast

lemma str_replace_censored:
  "old \<noteq> [] \<Longrightarrow> list_all2 (\<lambda>a b. b = a \<or> b = block) t (str_replace old (blocks (length old)) t)"
proof (induction old "blocks (length old)" t rule: str_replace.induct)
  case (1 old)
  then show ?case by simp
next
  case (2 old c cs)
  show ?case
  proof (cases "prefix old (c # cs)")
    case True
    then have split: "c # cs = old @ drop (length old) (c # cs)"
      by (auto simp: prefix_def)
    have "list_all2 (\<lambda>a b. b = a \<or> b = block) (old @ drop (length old) (c # cs))
        (blocks (length old) @ str_replace old (blocks (length old)) (drop (length old) (c # cs)))"
      using blocks_censored "2.hyps"(2) [OF "2.prems" True "2.prems"]
      by (rule list_all2_appendI)
    with split True "2.prems" show ?thesis by simp
  next
    case False
    with "2.hyps"(3) "2.prems" show ?thesis by simp
  qed
qed

lemma replace_paths_censored:
  "\<forall>x \<in> set reps. fst x \<noteq> [] \<and> snd x = blocks (length (fst x)) \<Longrightarrow>
   list_all2 (\<lambda>a b. b = a \<or> b = block) t (replace_paths reps t)"
proof (induction reps arbitrary: t)
  case Nil
  then show ?case by (simp add: replace_paths_def same_censored)
next
  case (Cons x xs)
  from Cons.prems have x: "fst x \<noteq> []" "snd x = blocks (length (fst x))" by simp_all
  from str_replace_censored [OF x(1), of t] x(2)
  have "list_all2 (\<lambda>a b. b = a \<or> b = block) t (str_replace (fst x) (snd x) t)" by simp
  moreover from Cons
  have "list_all2 (\<lambda>a b. b = a \<or> b = block) (str_replace (fst x) (snd x) t)
      (replace_paths xs (str_replace (fst x) (snd x) t))" by simp
  ultimately show ?case unfolding replace_paths_Cons by (rule censored_trans)
qed

lemma re_sub_from_censored:
  assumes "\<And>m. list_all2 (\<lambda>a b. b = a \<or> b = block) m (f m)"
  shows "list_all2 (\<lambda>a b. b = a \<or> b = block) (drop p t) (re_sub_from uni r f t p)"
  using assms
proof (induction uni r f t p rule: re_sub_from.induct)
  case (1 uni r g t p)
  note g = "1.prems"
  have g_nil: "g [] = []" using g [of "[]"] by simp
  show ?case
  proof (cases "length t < p")
    case True
    then show ?thesis by (simp add: re_sub_from.simps [of uni r g t p])
  next
    case inside: False
    have copy: "list_all2 (\<lambda>a b. b = a \<or> b = block) (drop p t) (t ! p # re_sub_from uni r g t (Suc p))"
      if "p < length t" "list_all2 (\<lambda>a b. b = a \<or> b = block) (drop (Suc p) t) (re_sub_from uni r g t (Suc p))"
      using that by (simp add: Cons_nth_drop_Suc [symmetric])
    show ?thesis
    proof (cases "rx_match uni r t p")
      case None
      show ?thesis
      proof (cases "p < length t")
        case True
        from copy [OF True "1.IH"(1) [OF inside None True g]] inside None True show ?thesis
          by (simp add: re_sub_from.simps [of uni r g t p])
      next
        case False
        with inside None show ?thesis by (simp add: re_sub_from.simps [of uni r g t p])
      qed
    next
      case (Some e)
      show ?thesis
      proof (cases "p < e \<and> e \<le> length t")
        case True
        then have pe: "p < e" and el: "e \<le> length t" by simp_all
        have out: "re_sub_from uni r g t p = g (slice t p e) @ re_sub_from uni r g t e"
          using inside Some pe el by (simp add: re_sub_from.simps [of uni r g t p])
        have "drop p t = take (e - p) (drop p t) @ drop (e - p) (drop p t)"
          by (simp only: append_take_drop_id)
        moreover have "drop (e - p) (drop p t) = drop e t" using pe by simp
        ultimately have split: "drop p t = slice t p e @ drop e t" by (simp only: slice_def)
        have "list_all2 (\<lambda>a b. b = a \<or> b = block) (slice t p e @ drop e t)
            (g (slice t p e) @ re_sub_from uni r g t e)"
          using g "1.IH"(2) [OF inside Some True g] by (rule list_all2_appendI)
        with out split show ?thesis by simp
      next
        case nomatch: False
        show ?thesis
        proof (cases "p < length t")
          case True
          have out: "re_sub_from uni r g t p = t ! p # re_sub_from uni r g t (Suc p)"
            using inside Some nomatch True g_nil
            by (auto simp: re_sub_from.simps [of uni r g t p])
          from copy [OF True "1.IH"(3) [OF inside Some nomatch True g]] out show ?thesis by simp
        next
          case False
          have "re_sub_from uni r g t p = g []"
            by (subst re_sub_from.simps) (use False inside Some nomatch in auto)
          with g_nil False show ?thesis by simp
        qed
      qed
    qed
  qed
qed

lemma replace_entity_cases:
  "replace_entity m = (if list_ex (\<lambda>term. sublist term m) ENTITY_WHITELIST then m else blocks (length m))"
  by (auto simp: replace_entity_def list_ex_iff)

lemma replace_entity_censored: "list_all2 (\<lambda>a b. b = a \<or> b = block) m (replace_entity m)"
  by (simp add: replace_entity_cases blocks_censored same_censored)

lemma re_sub_censored: "list_all2 (\<lambda>a b. b = a \<or> b = block) t (re_sub uni r replace_entity t)"
  using re_sub_from_censored [of replace_entity 0 t uni r] replace_entity_censored
  by (simp add: re_sub_def)

lemma blocks_stay:
  assumes "list_all2 (\<lambda>a b. b = a \<or> b = block) x y"
    and "slice x s e = blocks (e - s)" and "e \<le> length x"
  shows "slice y s e = blocks (e - s)"
proof (rule nth_equalityI)
  from assms(1) have len: "length y = length x" by (simp add: list_all2_lengthD)
  with assms(3) show "length (slice y s e) = length (blocks (e - s))"
    by (simp add: slice_def blocks_def)
  fix i
  assume "i < length (slice y s e)"
  with len assms(3) have i: "i < e - s" "s + i < length x" by (simp_all add: slice_def)
  from assms(2) i have "slice x s e ! i = block" by (simp add: blocks_def)
  with i have "x ! (s + i) = block" by (simp add: slice_def)
  moreover from assms(1) i(2) have "y ! (s + i) = x ! (s + i) \<or> y ! (s + i) = block"
    by (simp add: list_all2_conv_all_nth)
  ultimately have "y ! (s + i) = block" by auto
  with i len show "slice y s e ! i = blocks (e - s) ! i" by (simp add: slice_def blocks_def)
qed

lemma plain_under_censored:
  assumes "list_all2 (\<lambda>a b. b = a \<or> b = block) x p" and "block \<notin> set p"
  shows "x = p"
proof (rule nth_equalityI)
  from assms(1) show len: "length x = length p" by (rule list_all2_lengthD)
  fix i
  assume "i < length x"
  with assms(1) len have "p ! i = x ! i \<or> p ! i = block" "p ! i \<in> set p"
    by (simp_all add: list_all2_conv_all_nth)
  with assms(2) show "x ! i = p ! i" by auto
qed

lemma sublist_under_censored:
  assumes "list_all2 (\<lambda>a b. b = a \<or> b = block) x y" and "block \<notin> set p" and "sublist p y"
  shows "sublist p x"
proof -
  from assms(3) obtain ps ss where y: "y = ps @ p @ ss" by (auto simp: sublist_def)
  with assms(1) obtain x1 x23 where x: "x = x1 @ x23"
    and "list_all2 (\<lambda>a b. b = a \<or> b = block) x23 (p @ ss)"
    by (auto simp: list_all2_append2)
  then obtain x2 x3 where "x23 = x2 @ x3" and "list_all2 (\<lambda>a b. b = a \<or> b = block) x2 p"
    by (auto simp: list_all2_append2)
  with plain_under_censored [OF _ assms(2)] x have "x = x1 @ p @ x3" by simp
  then show ?thesis by (auto simp: sublist_def)
qed

text \<open>
  C8. For every censor built from a workspace path and every text \<open>t\<close>, the censored text
  has exactly as many characters as \<open>t\<close>, and what is written is a run of blocks as long
  as the text it stands for:
  every entry of the replacement table pairs a non-empty segment with the run of blocks of
  the segment's length; \<open>_replace_entity\<close> returns the matched text when a whitelist term
  occurs in it and the run of blocks of its length otherwise; every character of the output
  is the character of \<open>t\<close> at that position or a block; every match of the titled pass
  and of the multi-capitalised pass that holds no whitelist term is, in the output, the run
  of blocks of its length; and when no segment of the workspace contains a block, no
  censored segment occurs in the output any more.
\<close>

theorem censor_text_same_length:
  "length (fst (censor_text uni (DemoCensor_init workspace) t)) = length t
   \<and> (\<forall>x \<in> set (replacements (DemoCensor_init workspace)).
         fst x \<noteq> [] \<and> snd x = blocks (length (fst x)))
   \<and> replace_entity m
       = (if list_ex (\<lambda>term. sublist term m) ENTITY_WHITELIST then m else blocks (length m))
   \<and> (\<forall>i < length t. fst (censor_text uni (DemoCensor_init workspace) t) ! i = t ! i
         \<or> fst (censor_text uni (DemoCensor_init workspace) t) ! i = block)
   \<and> ((s, e) \<in> set (re_spans_from uni RE_TITLED
                      (replace_paths (replacements (DemoCensor_init workspace)) t) 0)
        \<and> \<not> list_ex (\<lambda>term. sublist term
                (slice (replace_paths (replacements (DemoCensor_init workspace)) t) s e))
              ENTITY_WHITELIST
      \<longrightarrow> slice (fst (censor_text uni (DemoCensor_init workspace) t)) s e = blocks (e - s))
   \<and> ((s', e') \<in> set (re_spans_from uni RE_MULTI_CAP
                      (sub_titled uni (replace_paths (replacements (DemoCensor_init workspace)) t)) 0)
        \<and> \<not> list_ex (\<lambda>term. sublist term
                (slice (sub_titled uni (replace_paths (replacements (DemoCensor_init workspace)) t)) s' e'))
              ENTITY_WHITELIST
      \<longrightarrow> slice (fst (censor_text uni (DemoCensor_init workspace) t)) s' e' = blocks (e' - s'))
   \<and> ((\<forall>part \<in> set (parts workspace). block \<notin> set part)
      \<longrightarrow> (\<forall>x \<in> set (replacements (DemoCensor_init workspace)).
             \<not> sublist (fst x) (fst (censor_text uni (DemoCensor_init workspace) t))))"
proof -
  let ?reps = "replacements (DemoCensor_init workspace)"
  let ?t1 = "replace_paths ?reps t"
  let ?t2 = "sub_titled uni ?t1"
  let ?out = "fst (censor_text uni (DemoCensor_init workspace) t)"
  have out: "?out = sub_multi_cap uni ?t2"
    by (simp add: censor_text_def Let_def)
  have reps: "?reps = build_path_replacements workspace []"
    by (simp add: DemoCensor_init_def)
  have "\<forall>x \<in> set (add_parts (name workspace) (parts workspace) []).
      fst x \<noteq> [] \<and> snd x = blocks (length (fst x))"
    by (intro add_parts_entries) simp_all
  then have entries: "\<forall>x \<in> set ?reps. fst x \<noteq> [] \<and> snd x = blocks (length (fst x))"
    by (simp add: reps build_path_replacements_def)
  have c1: "list_all2 (\<lambda>a b. b = a \<or> b = block) t ?t1"
    using entries by (rule replace_paths_censored)
  have c2: "list_all2 (\<lambda>a b. b = a \<or> b = block) ?t1 ?t2"
    unfolding sub_titled_def by (rule re_sub_censored)
  have c3: "list_all2 (\<lambda>a b. b = a \<or> b = block) ?t2 ?out"
    unfolding out sub_multi_cap_def by (rule re_sub_censored)
  have c: "list_all2 (\<lambda>a b. b = a \<or> b = block) t ?out"
    using censored_trans [OF censored_trans [OF c1 c2] c3] .
  have len: "length ?out = length t"
    using list_all2_lengthD [OF c] by simp
  have nth: "\<forall>i < length t. ?out ! i = t ! i \<or> ?out ! i = block"
    using c unfolding list_all2_conv_all_nth by blast
  have titled: "slice ?out s e = blocks (e - s)"
    if "(s, e) \<in> set (re_spans_from uni RE_TITLED ?t1 0)
        \<and> \<not> list_ex (\<lambda>term. sublist term (slice ?t1 s e)) ENTITY_WHITELIST"
  proof -
    from that have span: "(s, e) \<in> set (re_spans_from uni RE_TITLED ?t1 0)"
      and plain: "\<not> list_ex (\<lambda>term. sublist term (slice ?t1 s e)) ENTITY_WHITELIST" by simp_all
    from re_spans_from_bounds [OF span] have b: "s \<le> e" "e \<le> length ?t1" by simp_all
    have "slice ?t2 s e = replace_entity (slice ?t1 s e)"
      unfolding sub_titled_def using replace_entity_length span by (rule re_sub_at_span)
    also have "\<dots> = blocks (length (slice ?t1 s e))"
      using plain by (simp only: replace_entity_cases if_False)
    also have "length (slice ?t1 s e) = e - s"
      using b by (simp add: slice_def)
    finally have "slice ?t2 s e = blocks (e - s)" .
    moreover from b list_all2_lengthD [OF c2] have "e \<le> length ?t2" by simp
    ultimately show ?thesis by (intro blocks_stay [OF c3])
  qed
  have multi: "slice ?out s' e' = blocks (e' - s')"
    if "(s', e') \<in> set (re_spans_from uni RE_MULTI_CAP ?t2 0)
        \<and> \<not> list_ex (\<lambda>term. sublist term (slice ?t2 s' e')) ENTITY_WHITELIST"
  proof -
    from that have span: "(s', e') \<in> set (re_spans_from uni RE_MULTI_CAP ?t2 0)"
      and plain: "\<not> list_ex (\<lambda>term. sublist term (slice ?t2 s' e')) ENTITY_WHITELIST" by simp_all
    from re_spans_from_bounds [OF span] have b: "s' \<le> e'" "e' \<le> length ?t2" by simp_all
    have "slice ?out s' e' = replace_entity (slice ?t2 s' e')"
      unfolding out sub_multi_cap_def using replace_entity_length span by (rule re_sub_at_span)
    also have "\<dots> = blocks (length (slice ?t2 s' e'))"
      using plain by (simp only: replace_entity_cases if_False)
    also have "length (slice ?t2 s' e') = e' - s'"
      using b by (simp add: slice_def)
    finally show ?thesis .
  qed
  have gone: "\<forall>x \<in> set ?reps. \<not> sublist (fst x) ?out"
    if "\<forall>part \<in> set (parts workspace). block \<notin> set part"
  proof
    fix x
    assume x: "x \<in> set ?reps"
    from build_path_replacements_entries [OF that] reps
    have ok: "\<forall>x \<in> set ?reps. fst x \<noteq> [] \<and> block \<notin> set (fst x) \<and> snd x = blocks (length (fst x))"
      by simp
    then have "\<forall>x \<in> set ?reps. \<not> sublist (fst x) ?t1"
      by (rule replace_paths_all_absent)
    with x have "\<not> sublist (fst x) ?t1" by simp
    moreover from ok x have "block \<notin> set (fst x)" by simp
    ultimately show "\<not> sublist (fst x) ?out"
      using sublist_under_censored [OF censored_trans [OF c2 c3]] by blast
  qed
  show ?thesis
  proof (intro conjI impI)
    show "length ?out = length t" by (rule len)
    show "\<forall>x \<in> set ?reps. fst x \<noteq> [] \<and> snd x = blocks (length (fst x))" by (rule entries)
    show "replace_entity m
       = (if list_ex (\<lambda>term. sublist term m) ENTITY_WHITELIST then m else blocks (length m))"
      by (rule replace_entity_cases)
    show "\<forall>i < length t. ?out ! i = t ! i \<or> ?out ! i = block" by (rule nth)
    show "slice ?out s e = blocks (e - s)"
      if "(s, e) \<in> set (re_spans_from uni RE_TITLED ?t1 0)
        \<and> \<not> list_ex (\<lambda>term. sublist term (slice ?t1 s e)) ENTITY_WHITELIST"
      using that by (rule titled)
    show "slice ?out s' e' = blocks (e' - s')"
      if "(s', e') \<in> set (re_spans_from uni RE_MULTI_CAP ?t2 0)
        \<and> \<not> list_ex (\<lambda>term. sublist term (slice ?t2 s' e')) ENTITY_WHITELIST"
      using that by (rule multi)
    show "\<forall>x \<in> set ?reps. \<not> sublist (fst x) ?out"
      if "\<forall>part \<in> set (parts workspace). block \<notin> set part"
      using that by (rule gone)
  qed
qed

text \<open>
  C8 at the workspace \<^verbatim>\<open>/home/bob/Proj\<close> and the text
  \<^verbatim>\<open>"bob met Dr. Smith and John Doe"\<close>: one path segment, one match of each pass.
\<close>

theorem censor_text_same_length_witness:
  "block \<notin> set (concat (parts home_bob))
   \<and> replacements (DemoCensor_init home_bob) = [(ustr ''bob'', blocks 3)]
   \<and> (8, 17) \<in> set (re_spans_from no_uni RE_TITLED
        (replace_paths (replacements (DemoCensor_init home_bob)) (ustr ''bob met Dr. Smith and John Doe'')) 0)
   \<and> (22, 30) \<in> set (re_spans_from no_uni RE_MULTI_CAP
        (sub_titled no_uni
           (replace_paths (replacements (DemoCensor_init home_bob)) (ustr ''bob met Dr. Smith and John Doe''))) 0)
   \<and> fst (censor_text no_uni (DemoCensor_init home_bob) (ustr ''bob met Dr. Smith and John Doe''))
       = blocks 3 @ ustr '' met '' @ blocks 9 @ ustr '' and '' @ blocks 8
   \<and> length (fst (censor_text no_uni (DemoCensor_init home_bob) (ustr ''bob met Dr. Smith and John Doe'')))
       = length (ustr ''bob met Dr. Smith and John Doe'')
   \<and> fst (censor_text no_uni (DemoCensor_init home_bob) (ustr ''bob met Dr. Smith and John Doe'')) ! 0 = block
   \<and> slice (fst (censor_text no_uni (DemoCensor_init home_bob) (ustr ''bob met Dr. Smith and John Doe''))) 8 17
       = blocks 9
   \<and> slice (fst (censor_text no_uni (DemoCensor_init home_bob) (ustr ''bob met Dr. Smith and John Doe''))) 22 30
       = blocks 8
   \<and> \<not> sublist (ustr ''bob'')
         (fst (censor_text no_uni (DemoCensor_init home_bob) (ustr ''bob met Dr. Smith and John Doe'')))
   \<and> replace_entity (ustr ''John Doe'') = blocks 8"
proof -
  let ?t = "ustr ''bob met Dr. Smith and John Doe''"
  let ?reps = "replacements (DemoCensor_init home_bob)"
  let ?out = "fst (censor_text no_uni (DemoCensor_init home_bob) ?t)"
  have seg: "block \<notin> set (concat (parts home_bob))"
    by code_simp
  then have h: "\<forall>part \<in> set (parts home_bob). block \<notin> set part"
    by auto
  have table: "?reps = [(ustr ''bob'', blocks 3)]"
    by code_simp
  have titled: "(8, 17) \<in> set (re_spans_from no_uni RE_TITLED (replace_paths ?reps ?t) 0)"
    by code_simp
  have titled_plain: "\<not> list_ex (\<lambda>term. sublist term (slice (replace_paths ?reps ?t) 8 17)) ENTITY_WHITELIST"
    by code_simp
  have multi: "(22, 30) \<in> set (re_spans_from no_uni RE_MULTI_CAP (sub_titled no_uni (replace_paths ?reps ?t)) 0)"
    by code_simp
  have multi_plain: "\<not> list_ex (\<lambda>term. sublist term
      (slice (sub_titled no_uni (replace_paths ?reps ?t)) 22 30)) ENTITY_WHITELIST"
    by code_simp
  have out: "?out = blocks 3 @ ustr '' met '' @ blocks 9 @ ustr '' and '' @ blocks 8"
    by code_simp
  have first: "(blocks 3 @ ustr '' met '' @ blocks 9 @ ustr '' and '' @ blocks 8) ! 0 \<noteq> ?t ! 0"
    by code_simp
  have len: "0 < length ?t"
    by code_simp
  have doe: "\<not> list_ex (\<lambda>term. sublist term (ustr ''John Doe'')) ENTITY_WHITELIST"
    "length (ustr ''John Doe'') = 8"
    by code_simp+
  note inst = censor_text_same_length [of no_uni home_bob ?t "ustr ''John Doe''" 8 17 22 30]
  from inst have "length ?out = length ?t" by blast
  moreover from inst len first out have "?out ! 0 = block" by auto
  moreover from inst titled titled_plain have "slice ?out 8 17 = blocks (17 - 8)" by blast
  moreover from inst multi multi_plain have "slice ?out 22 30 = blocks (30 - 22)" by blast
  moreover from inst h have "\<forall>x \<in> set ?reps. \<not> sublist (fst x) ?out" by blast
  with table have "\<not> sublist (ustr ''bob'') ?out" by simp
  moreover from inst doe have "replace_entity (ustr ''John Doe'') = blocks 8" by simp
  ultimately show ?thesis using seg table titled multi out by simp
qed

section \<open>Properties of the model client\<close>

lemma transport_trace:
  "transport srv r n url p = (res, trace) \<Longrightarrow>
     trace \<noteq> [] \<and> res = result_of (last trace) \<and>
     (\<forall>j<length trace. trace ! j = srv (n + j) url p) \<and>
     (\<forall>j. Suc j < length trace \<longrightarrow> (\<exists>frames. trace ! j = Timeout frames))"
proof (induction r arbitrary: n res trace)
  case 0
  then show ?case by (auto split: outcome.splits)
next
  case (Suc r)
  show ?case
  proof (cases "srv n url p")
    case (Timeout frames)
    obtain res' trace' where rec: "transport srv r (Suc n) url p = (res', trace')"
      by (cases "transport srv r (Suc n) url p")
    with Suc.prems Timeout have eq: "res = res'" "trace = Timeout frames # trace'" by simp_all
    from Suc.IH [OF rec] have ne: "trace' \<noteq> []"
      and final: "res' = result_of (last trace')"
      and nth: "\<forall>j<length trace'. trace' ! j = srv (Suc n + j) url p"
      and early: "\<forall>j. Suc j < length trace' \<longrightarrow> (\<exists>frames. trace' ! j = Timeout frames)"
      by blast+
    have "trace ! j = srv (n + j) url p" if "j < length trace" for j
    proof (cases j)
      case 0
      with eq Timeout show ?thesis by simp
    next
      case (Suc i)
      with that eq nth show ?thesis by simp
    qed
    moreover have "\<exists>frames. trace ! j = Timeout frames" if "Suc j < length trace" for j
    proof (cases j)
      case 0
      with eq show ?thesis by simp
    next
      case (Suc i)
      with that eq early show ?thesis by simp
    qed
    ultimately show ?thesis using eq ne final by simp
  next
    case (HttpStatus status body)
    with Suc.prems show ?thesis by auto
  next
    case (Reply resp)
    with Suc.prems show ?thesis by auto
  qed
qed



lemma controller_reply:
  assumes "fst (run_transport T srv conv stripped self fx) = Inr resp"
  shows "controller T srv conv stripped swapped self fx =
     (case conclude T resp conv of
        (res, conv') \<Rightarrow> (res, conv', self,
          log_run fx (request_url self) (payload_of T self conv stripped)
            (snd (run_transport T srv conv stripped self fx))))"
  using assms by (simp add: controller.simps [of T srv conv stripped swapped self fx] Let_def)

lemma controller_http:
  assumes "fst (run_transport T srv conv stripped self fx) = Inl (HTTPModelError status body)"
  shows "controller T srv conv stripped swapped self fx =
     (let fx1 = log_run fx (request_url self) (payload_of T self conv stripped)
                  (snd (run_transport T srv conv stripped self fx));
          strip = strip_applies stripped (vendor self) body;
          swap = swap_applies swapped status (provider (config self)) (request_url self)
      in if strip \<or> swap
         then controller T srv conv (stripped \<or> strip) (swapped \<or> swap)
                (degraded_client swap self) (degraded_effects swap self fx1)
         else (Inl (HTTPModelError status body), conv, self, fx1))"
  using assms by (simp add: controller.simps [of T srv conv stripped swapped self fx] Let_def)

lemma controller_other:
  assumes "fst (run_transport T srv conv stripped self fx) = Inl e"
    and "e = ModelError m \<or> e = RateLimitError m"
  shows "controller T srv conv stripped swapped self fx =
     (Inl e, conv, self, log_run fx (request_url self) (payload_of T self conv stripped)
          (snd (run_transport T srv conv stripped self fx)))"
  using assms by (auto simp: controller.simps [of T srv conv stripped swapped self fx] Let_def)

lemma log_run_simps [simp]:
  "requests (log_run fx url p trace) = requests fx @ replicate (length trace) (url, p)"
  "submitted (log_run fx url p trace) = submitted fx @ [(url, p)]"
  "results (log_run fx url p trace) = results fx @ [result_of (last trace)]"
  "deltas (log_run fx url p trace) = deltas fx @ concat (map answer_deltas trace)"
  "persisted (log_run fx url p trace) = persisted fx"
  by (simp_all add: log_run_def)

lemma on_base_url_persist_simps [simp]:
  "requests (on_base_url_persist fx b) = requests fx"
  "submitted (on_base_url_persist fx b) = submitted fx"
  "results (on_base_url_persist fx b) = results fx"
  "deltas (on_base_url_persist fx b) = deltas fx"
  "persisted (on_base_url_persist fx b) = persisted fx @ [b]"
  by (simp_all add: on_base_url_persist_def)

lemma degraded_effects_simps [simp]:
  "requests (degraded_effects swap self fx) = requests fx"
  "submitted (degraded_effects swap self fx) = submitted fx"
  "results (degraded_effects swap self fx) = results fx"
  "deltas (degraded_effects swap self fx) = deltas fx"
  by (simp_all add: degraded_effects_def)

lemma conclude_result:
  "conclude T resp conv = (res, conv') \<Longrightarrow>
     res = (if throttled T (assemble resp) then Inl (RateLimitError ''rate limited'')
            else Inr (assemble resp)) \<and>
     conv' = (if throttled T (assemble resp) then conv
              else conv @ [\<lparr>msg_role = Assistant, msg_content = turn_text (assemble resp),
                            msg_tool_call = None\<rparr>])"
  by (auto simp: conclude_def Let_def split: if_splits)

lemma run_replies:
  assumes run: "run_transport T srv conv stripped self fx0 = (r, trace)"
  shows "trace \<noteq> []"
    and "\<And>i resp. length (requests fx0) \<le> i \<Longrightarrow> i < length (requests fx0) + length trace \<Longrightarrow>
           srv i (request_url self) (payload_of T self conv stripped) = Reply resp \<Longrightarrow>
           Suc i = length (requests fx0) + length trace \<and> r = Inr resp"
    and "\<And>resp. r = Inr resp \<Longrightarrow>
           srv (length (requests fx0) + length trace - 1) (request_url self)
             (payload_of T self conv stripped) = Reply resp"
    and "r = result_of (last trace)"
proof -
  let ?n = "length (requests fx0)"
  let ?k = "length trace"
  let ?url = "request_url self"
  let ?p = "payload_of T self conv stripped"
  from run have tr: "transport srv (max_retries (config self)) ?n ?url ?p = (r, trace)"
    by (simp add: run_transport_def)
  from transport_trace [OF tr]
  have ne: "trace \<noteq> []" and final: "r = result_of (last trace)"
    and nth: "\<And>j. j < ?k \<Longrightarrow> trace ! j = srv (?n + j) ?url ?p"
    and early: "\<And>j. Suc j < ?k \<Longrightarrow> \<exists>frames. trace ! j = Timeout frames"
    by blast+
  from ne have k: "0 < ?k" by simp
  from ne have last_nth: "last trace = trace ! (?k - 1)" by (simp add: last_conv_nth)
  with nth [of "?k - 1"] k have last_srv: "last trace = srv (?n + ?k - 1) ?url ?p" by simp
  show "trace \<noteq> []" by (rule ne)
  show "r = result_of (last trace)" by (rule final)
  show "Suc i = ?n + ?k \<and> r = Inr resp"
    if "?n \<le> i" "i < ?n + ?k" "srv i ?url ?p = Reply resp" for i resp
  proof (cases "Suc i = ?n + ?k")
    case True
    then have "?n + ?k - 1 = i" by simp
    with last_srv that(3) final True show ?thesis by simp
  next
    case False
    with that(1,2) have "Suc (i - ?n) < ?k" and eq: "?n + (i - ?n) = i" by simp_all
    from early [OF this(1)] obtain frames where "trace ! (i - ?n) = Timeout frames" ..
    moreover from \<open>Suc (i - ?n) < ?k\<close> have "i - ?n < ?k" by simp
    from nth [OF this] eq have "trace ! (i - ?n) = srv i ?url ?p" by simp
    ultimately show ?thesis using that(3) by simp
  qed
  show "srv (?n + ?k - 1) ?url ?p = Reply resp" if "r = Inr resp" for resp
  proof -
    from final that have "result_of (last trace) = Inr resp" by simp
    then have "last trace = Reply resp" by (cases "last trace") simp_all
    with last_srv show ?thesis by simp
  qed
qed



lemma controller_inv:
  "controller T srv conv stripped swapped self fx0 = (res, conv', self', fx) \<Longrightarrow>
   (\<exists>ys. ys \<noteq> [] \<and> requests fx = requests fx0 @ ys) \<and>
   (\<forall>i resp. length (requests fx0) \<le> i \<and> i < length (requests fx) \<and>
       srv i (fst (requests fx ! i)) (snd (requests fx ! i)) = Reply resp \<longrightarrow>
       Suc i = length (requests fx) \<and>
       res = (if throttled T (assemble resp) then Inl (RateLimitError ''rate limited'')
              else Inr (assemble resp)) \<and>
       conv' = (if throttled T (assemble resp) then conv
                else conv @ [\<lparr>msg_role = Assistant, msg_content = turn_text (assemble resp),
                              msg_tool_call = None\<rparr>])) \<and>
   ((\<exists>t. res = Inr t) \<longrightarrow>
      (\<exists>resp. srv (length (requests fx) - 1) (fst (last (requests fx))) (snd (last (requests fx)))
         = Reply resp))"
proof (induction T srv conv stripped swapped self fx0 arbitrary: res conv' self' fx
    rule: controller.induct)
  case (1 T srv conv stripped swapped self fx0)
  let ?n = "length (requests fx0)"
  let ?url = "request_url self"
  let ?p = "payload_of T self conv stripped"
  obtain r trace where run: "run_transport T srv conv stripped self fx0 = (r, trace)"
    by (cases "run_transport T srv conv stripped self fx0")
  let ?k = "length trace"
  from run_replies(1) [OF run] have k: "0 < ?k" by simp
  note only_last = run_replies(2) [OF run]
  note last_reply = run_replies(3) [OF run]
  let ?fx1 = "log_run fx0 ?url ?p trace"
  have nth1: "requests ?fx1 ! i = (?url, ?p)" if "?n \<le> i" "i < ?n + ?k" for i
    using that by (simp add: nth_append)
  have no_reply: "srv i (fst ((requests ?fx1 @ zs) ! i)) (snd ((requests ?fx1 @ zs) ! i)) \<noteq> Reply resp"
    if "\<And>resp'. r \<noteq> Inr resp'" "?n \<le> i" "i < ?n + ?k" for i resp zs
  proof
    assume a: "srv i (fst ((requests ?fx1 @ zs) ! i)) (snd ((requests ?fx1 @ zs) ! i)) = Reply resp"
    from that(3) have "i < length (requests ?fx1)" by simp
    then have "(requests ?fx1 @ zs) ! i = requests ?fx1 ! i" by (simp only: nth_append if_True)
    with a nth1 [OF that(2,3)] have "srv i ?url ?p = Reply resp" by simp
    from only_last [OF that(2,3) this] that(1) show False by simp
  qed
  show ?case
  proof (cases r)
    case (Inr resp)
    with run have "fst (run_transport T srv conv stripped self fx0) = Inr resp" by simp
    from controller_reply [OF this, of swapped] "1.prems" run
    have c: "(case conclude T resp conv of (res, conv') \<Rightarrow> (res, conv', self, ?fx1))
        = (res, conv', self', fx)" by simp
    then have c': "conclude T resp conv = (res, conv')" and fx: "fx = ?fx1"
      by (cases "conclude T resp conv"; simp)+
    from fx have req: "requests fx = requests fx0 @ replicate ?k (?url, ?p)" by simp
    note result = conclude_result [OF c']
    have part1: "\<exists>ys. ys \<noteq> [] \<and> requests fx = requests fx0 @ ys"
      using req k by (intro exI [of _ "replicate ?k (?url, ?p)"]) auto
    have part2: "Suc i = length (requests fx) \<and>
       res = (if throttled T (assemble resp') then Inl (RateLimitError ''rate limited'')
              else Inr (assemble resp')) \<and>
       conv' = (if throttled T (assemble resp') then conv
                else conv @ [\<lparr>msg_role = Assistant, msg_content = turn_text (assemble resp'),
                              msg_tool_call = None\<rparr>])"
      if "?n \<le> i" "i < length (requests fx)"
        "srv i (fst (requests fx ! i)) (snd (requests fx ! i)) = Reply resp'" for i resp'
    proof -
      from that(2) req have ik: "i < ?n + ?k" by simp
      from nth1 [OF that(1) ik] fx have "requests fx ! i = (?url, ?p)" by simp
      with that(3) have "srv i ?url ?p = Reply resp'" by simp
      from only_last [OF that(1) ik this] Inr have "Suc i = ?n + ?k" and "resp' = resp" by simp_all
      with req result show ?thesis by simp
    qed
    have part3: "\<exists>resp. srv (length (requests fx) - 1) (fst (last (requests fx)))
        (snd (last (requests fx))) = Reply resp"
    proof -
      from req k have "last (requests fx) = (?url, ?p)" by (cases ?k) auto
      moreover from req have "length (requests fx) - 1 = ?n + ?k - 1" by simp
      ultimately show ?thesis using last_reply [OF Inr] by auto
    qed
    from part1 part2 part3 show ?thesis by blast
  next
    case (Inl e)
    have none: "\<And>resp'. r \<noteq> Inr resp'" using Inl by simp
    show ?thesis
    proof (cases "\<exists>status body. e = HTTPModelError status body")
      case False
      then obtain m where "e = ModelError m \<or> e = RateLimitError m" by (cases e) auto
      moreover from run Inl have "fst (run_transport T srv conv stripped self fx0) = Inl e" by simp
      ultimately have "controller T srv conv stripped swapped self fx0 = (Inl e, conv, self, ?fx1)"
        using controller_other [of T srv conv stripped self fx0 e m swapped] run by simp
      with "1.prems" have res: "res = Inl e" and fx: "fx = ?fx1" by auto
      have "\<exists>ys. ys \<noteq> [] \<and> requests fx = requests fx0 @ ys"
        using fx k by (intro exI [of _ "replicate ?k (?url, ?p)"]) auto
      moreover have "srv i (fst (requests fx ! i)) (snd (requests fx ! i)) \<noteq> Reply resp'"
        if "?n \<le> i" "i < length (requests fx)" for i resp'
        using no_reply [OF none that(1), of "[]" resp'] that(2) fx by simp
      ultimately show ?thesis using res by auto
    next
      case True
      then obtain status body where e: "e = HTTPModelError status body" by blast
      let ?strip = "strip_applies stripped (vendor self) body"
      let ?swap = "swap_applies swapped status (provider (config self)) ?url"
      from run Inl e
      have fst_run: "fst (run_transport T srv conv stripped self fx0) = Inl (HTTPModelError status body)"
        by simp
      show ?thesis
      proof (cases "?strip \<or> ?swap")
        case False
        with controller_http [OF fst_run, of swapped] run "1.prems"
        have res: "res = Inl e" and fx: "fx = ?fx1" by (auto simp: Let_def e)
        have "\<exists>ys. ys \<noteq> [] \<and> requests fx = requests fx0 @ ys"
          using fx k by (intro exI [of _ "replicate ?k (?url, ?p)"]) auto
        moreover have "srv i (fst (requests fx ! i)) (snd (requests fx ! i)) \<noteq> Reply resp'"
          if "?n \<le> i" "i < length (requests fx)" for i resp'
          using no_reply [OF none that(1), of "[]" resp'] that(2) fx by simp
        ultimately show ?thesis using res by auto
      next
        case True
        let ?self2 = "degraded_client ?swap self"
        let ?fx2 = "degraded_effects ?swap self ?fx1"
        from controller_http [OF fst_run, of swapped] run "1.prems" True
        have rec: "controller T srv conv (stripped \<or> ?strip) (swapped \<or> ?swap) ?self2 ?fx2
            = (res, conv', self', fx)"
          by (simp add: Let_def)
        have req2: "requests ?fx2 = requests ?fx1" by simp
        have fst_e: "fst (run_transport T srv conv stripped self fx0) = Inl e" using run Inl by simp
        have rec': "controller T srv conv (stripped \<or> ?strip) (swapped \<or> ?swap) ?self2
            (degraded_effects ?swap self
               (log_run fx0 ?url ?p (snd (run_transport T srv conv stripped self fx0))))
            = (res, conv', self', fx)"
          using rec by (simp add: run)
        note IH = "1.IH" [OF refl refl fst_e e refl refl True rec']
        have run_eq: "snd (run_transport T srv conv stripped self fx0) = trace" using run by simp
        from IH obtain ys where ys: "ys \<noteq> []" "requests fx = requests ?fx1 @ ys"
          unfolding run_eq using req2 by auto
        have part1: "\<exists>zs. zs \<noteq> [] \<and> requests fx = requests fx0 @ zs"
          using ys by (intro exI [of _ "replicate ?k (?url, ?p) @ ys"]) simp
        have part2: "Suc i = length (requests fx) \<and>
           res = (if throttled T (assemble resp') then Inl (RateLimitError ''rate limited'')
                  else Inr (assemble resp')) \<and>
           conv' = (if throttled T (assemble resp') then conv
                    else conv @ [\<lparr>msg_role = Assistant, msg_content = turn_text (assemble resp'),
                                  msg_tool_call = None\<rparr>])"
          if "?n \<le> i" "i < length (requests fx)"
            "srv i (fst (requests fx ! i)) (snd (requests fx ! i)) = Reply resp'" for i resp'
        proof (cases "i < ?n + ?k")
          case True
          from no_reply [OF none that(1) True, of ys resp'] that(3) ys(2) show ?thesis by simp
        next
          case False
          then have "length (requests ?fx2) \<le> i" by simp
          with IH that(2,3) show ?thesis unfolding run_eq by blast
        qed
        from IH have part3: "(\<exists>t. res = Inr t) \<longrightarrow>
          (\<exists>resp. srv (length (requests fx) - 1) (fst (last (requests fx))) (snd (last (requests fx)))
             = Reply resp)" by blast
        from part1 part2 part3 show ?thesis by blast
      qed
    qed
  qed
qed

lemma strip_applies_stripped [simp]: "strip_applies True v body = False"
  by (simp add: strip_applies_def)

lemma swap_applies_swapped [simp]: "swap_applies True status prov url = False"
  by (simp add: swap_applies_def)





lemma switch_base_url_simps [simp]:
  "vendor (switch_base_url self) = vendor self"
  "provider (config (switch_base_url self)) = provider (config self)"
  "base_url (config (switch_base_url self)) = replacement_base_url (base_url (config self))"
  "max_retries (config (switch_base_url self)) = max_retries (config self)"
  by (simp_all add: switch_base_url_def)

lemma build_payload_switch_base_url:
  "fst (build_payload T (switch_base_url self) conv) = fst (build_payload T self conv)"
  by (cases "vendor self")
    (simp_all add: build_payload_def switch_base_url_def build_openai_def build_anthropic_def)

lemma payload_of_switch_base_url [simp]:
  "payload_of T (switch_base_url self) conv stripped = payload_of T self conv stripped"
  by (simp add: payload_of_def build_payload_switch_base_url Let_def)

lemma payload_of_degraded_client [simp]:
  "payload_of T (degraded_client swap self) conv stripped = payload_of T self conv stripped"
  by (simp add: degraded_client_def)

lemma vendor_degraded_client [simp]: "vendor (degraded_client swap self) = vendor self"
  by (simp add: degraded_client_def)

lemma provider_degraded_client [simp]:
  "provider (config (degraded_client swap self)) = provider (config self)"
  by (simp add: degraded_client_def)

lemma no_effects_simps [simp]:
  "requests no_effects = []" "submitted no_effects = []" "deltas no_effects = []"
  "persisted no_effects = []" "results no_effects = []"
  by (simp_all add: no_effects_def)

lemma text_of_deltas_append [simp]:
  "text_of_deltas (xs @ ys) = text_of_deltas xs @ text_of_deltas ys"
  by (simp add: text_of_deltas_def)









text \<open>
  C4. Whenever an HTTP request of a \<open>complete()\<close> call is answered by a response whose
  stop/finish reason signals throttling, the call raises \<open>RateLimitError\<close>, that request is
  the last one the call makes (no transport retry and no degradation follows it), and the
  conversation is left as it was.
\<close>

theorem rate_limit_surfaces_immediately:
  assumes "complete T srv self conv = (res, conv', self', fx)"
    and "i < length (requests fx)"
    and "srv i (fst (requests fx ! i)) (snd (requests fx ! i)) = Reply resp"
    and "throttled T (assemble resp)"
  shows "res = Inl (RateLimitError ''rate limited'') \<and> Suc i = length (requests fx) \<and> conv' = conv"
proof -
  note inv = controller_inv [OF assms(1) [unfolded complete_def]]
  from inv have "\<forall>i resp. length (requests no_effects) \<le> i \<and> i < length (requests fx) \<and>
       srv i (fst (requests fx ! i)) (snd (requests fx ! i)) = Reply resp \<longrightarrow>
       Suc i = length (requests fx) \<and>
       res = (if throttled T (assemble resp) then Inl (RateLimitError ''rate limited'')
              else Inr (assemble resp)) \<and>
       conv' = (if throttled T (assemble resp) then conv
                else conv @ [\<lparr>msg_role = Assistant, msg_content = turn_text (assemble resp),
                              msg_tool_call = None\<rparr>])"
    by blast
  from this [rule_format, of i resp] assms(2,3,4) show ?thesis by simp
qed

text \<open>C4 at the response of \<open>test_openai_finish_reason_rate_limit_raises_rate_limit_error\<close>.\<close>

theorem rate_limit_surfaces_immediately_witness:
  "throttled test_tables (assemble (Streamed
     [OpenAIChunk (Some ''partial'') None [] None, OpenAIChunk None None [] (Some ''rate_limit'')]))
   \<and> fst (complete test_tables throttling_server openai_client test_conversation)
       = Inl (RateLimitError ''rate limited'')
   \<and> length (requests (snd (snd (snd (complete test_tables throttling_server openai_client test_conversation))))) = 1"
proof -
  let ?resp = "Streamed
     [OpenAIChunk (Some ''partial'') None [] None, OpenAIChunk None None [] (Some ''rate_limit'')]"
  obtain res conv' self' fx
    where call: "complete test_tables throttling_server openai_client test_conversation
      = (res, conv', self', fx)"
    by (cases "complete test_tables throttling_server openai_client test_conversation")
  have n: "length (requests (snd (snd (snd (complete test_tables throttling_server openai_client
      test_conversation))))) = 1"
    by code_simp
  with call have i: "0 < length (requests fx)" by simp
  have reply: "throttling_server 0 (fst (requests fx ! 0)) (snd (requests fx ! 0)) = Reply ?resp"
    by (simp add: throttling_server_def)
  have thr: "throttled test_tables (assemble ?resp)"
    by code_simp
  from rate_limit_surfaces_immediately [OF call i reply thr] call thr show ?thesis by simp
qed

text \<open>
  C5. Every Anthropic payload for a model id in the adaptive-thinking class has
  \<^verbatim>\<open>"thinking": {"type": "adaptive"}\<close> and \<^verbatim>\<open>"output_config": {"effort": level}\<close>
  and no \<open>temperature\<close> key; for every other model id it has
  \<^verbatim>\<open>"thinking": {"type": "enabled", "budget_tokens": N}\<close> with \<open>N\<close> the budget of the
  reasoning-effort level, which is 4096 for medium.
\<close>

theorem anthropic_thinking_payload:
  "(adaptive_thinking T (model_id cfg) \<longrightarrow>
      field ''thinking'' (build_anthropic T conv cfg) = Some (JObj [(''type'', JStr ''adaptive'')])
    \<and> field ''output_config'' (build_anthropic T conv cfg)
        = Some (JObj [(''effort'', JStr (effort_name (reasoning_effort cfg)))])
    \<and> field ''temperature'' (build_anthropic T conv cfg) = None)
   \<and> (\<not> adaptive_thinking T (model_id cfg) \<longrightarrow>
      field ''thinking'' (build_anthropic T conv cfg)
        = Some (JObj [(''type'', JStr ''enabled''),
                      (''budget_tokens'', JNum (budget_tokens T (reasoning_effort cfg)))])
    \<and> (reasoning_effort cfg = Medium \<longrightarrow> budget_tokens T (reasoning_effort cfg) = 4096))"
  by (simp add: build_anthropic_def budget_tokens_def)

text \<open>C5 at the two configurations of the Anthropic payload tests.\<close>

theorem anthropic_thinking_payload_witness:
  "adaptive_thinking test_tables (model_id opus_config)
   \<and> field ''thinking'' (build_anthropic test_tables test_conversation opus_config)
       = Some (JObj [(''type'', JStr ''adaptive'')])
   \<and> field ''output_config'' (build_anthropic test_tables test_conversation opus_config)
       = Some (JObj [(''effort'', JStr ''high'')])
   \<and> field ''temperature'' (build_anthropic test_tables test_conversation opus_config) = None
   \<and> \<not> adaptive_thinking test_tables (model_id sonnet_config)
   \<and> reasoning_effort sonnet_config = Medium
   \<and> field ''thinking'' (build_anthropic test_tables test_conversation sonnet_config)
       = Some (JObj [(''type'', JStr ''enabled''), (''budget_tokens'', JNum 4096)])"
proof -
  have a: "adaptive_thinking test_tables (model_id opus_config)"
    by code_simp
  have b: "\<not> adaptive_thinking test_tables (model_id sonnet_config)"
    by code_simp
  have m: "reasoning_effort sonnet_config = Medium"
    by code_simp
  have e: "effort_name (reasoning_effort opus_config) = ''high''"
    by code_simp
  from anthropic_thinking_payload [of test_tables opus_config test_conversation]
    anthropic_thinking_payload [of test_tables sonnet_config test_conversation] a b m e
  show ?thesis by simp
qed

text \<open>
  C6. The payload builder leaves the client as it found it, a second build from the same
  conversation and configuration gives the same bytes, and so does a build by any client
  object with the same vendor and RequestConfig, whatever else that object holds.
\<close>

theorem build_payload_pure:
  "snd (build_payload T self conv) = self
   \<and> encode (fst (build_payload T (snd (build_payload T self conv)) conv))
       = encode (fst (build_payload T self conv))
   \<and> (vendor other = vendor self \<and> config other = config self \<longrightarrow>
        encode (fst (build_payload T other conv)) = encode (fst (build_payload T self conv)))"
  by (cases "vendor self") (simp_all add: build_payload_def)

text \<open>C6 at the OpenAI-compatible test client and a copy of it with an extra field.\<close>

theorem build_payload_pure_witness:
  "vendor (openai_client\<lparr>config := config openai_client\<rparr>) = vendor openai_client
   \<and> snd (build_payload test_tables openai_client test_conversation) = openai_client
   \<and> encode (fst (build_payload test_tables
         (snd (build_payload test_tables openai_client test_conversation)) test_conversation))
       = encode (fst (build_payload test_tables openai_client test_conversation))
   \<and> encode (fst (build_payload test_tables
         \<lparr>vendor = OpenAICompatible, config = config openai_client, \<dots> = True\<rparr> test_conversation))
       = encode (fst (build_payload test_tables openai_client test_conversation))"
proof -
  have v: "vendor \<lparr>vendor = OpenAICompatible, config = config openai_client, \<dots> = True\<rparr>
      = vendor openai_client"
    by code_simp
  from build_payload_pure [of test_tables openai_client test_conversation
      "\<lparr>vendor = OpenAICompatible, config = config openai_client, \<dots> = True\<rparr>"] v
  show ?thesis by simp
qed

end
